theory Spec2Isabelle
  imports Complex_Main "HOL-Library.AList" "HOL-Library.Multiset" "HOL-Library.Log_Nat"
begin

section \<open>Per-category annotator agreement: the embedding\<close>

text \<open>
  The program is the notebook cell defining \<open>agreement_rate_by_category\<close> and
  \<open>choose2\<close> (Python 3, so \<open>/\<close> is true division and every accumulated number is a
  float).

  \<^item> A row is a list of labels, the data a list of rows; labels are values of any
    type with equality (Python: hashable).
  \<^item> The two \<open>defaultdict(int)\<close> accumulators are association lists in insertion
    order; a missing key reads as \<open>0\<close>.
  \<^item> \<open>set(row)\<close> is iterated in some order; the model takes the order of
    \<open>remdups row\<close>.
  \<^item> The returned dict is a map from labels to rates (dict equality in Python ignores
    insertion order); dividing by zero raises \<open>ZeroDivisionError\<close>, the \<open>Inl\<close> of
    the result.

  The program is embedded twice, with the same control flow. The first embedding computes
  in exact rational arithmetic: it is the program with every rounding left out. The second
  (suffix \<open>_f64\<close>) rounds where Python rounds, to IEEE binary64 with ties to even. The
  two agree on the accumulators as long as the squares of the row lengths sum to at most
  \<open>2^53\<close> (\<open>accumulate_f64_exact\<close> below); the final quotient is rounded in any case.
  A statement whose truth depends on rounding is made about the second embedding.
\<close>

subsection \<open>The program in exact arithmetic\<close>

datatype py_error = ZeroDivisionError

type_synonym 'a pydict = "('a \<times> rat) list"

text \<open>\<^verbatim>\<open>def choose2(n): return n*(n-1)/2\<close>\<close>

definition choose2 :: "int \<Rightarrow> rat" where
  "choose2 n = of_int (n * (n - 1)) / 2"

text \<open>Reading \<open>d[k]\<close> of a \<open>defaultdict(int)\<close>, and \<open>d[k] += x\<close>.\<close>

definition dd_get :: "'a pydict \<Rightarrow> 'a \<Rightarrow> rat" where
  "dd_get d k = (case map_of d k of None \<Rightarrow> 0 | Some v \<Rightarrow> v)"

definition dd_add :: "'a \<Rightarrow> rat \<Rightarrow> 'a pydict \<Rightarrow> 'a pydict" where
  "dd_add k x d = AList.update k (dd_get d k + x) d"

record 'a accumulators =
  agreement :: "'a pydict"
  potential :: "'a pydict"

text \<open>The body of the inner loop, for one \<open>cat\<close> of \<open>set(row)\<close>.\<close>

definition cat_step :: "'a list \<Rightarrow> 'a \<Rightarrow> 'a accumulators \<Rightarrow> 'a accumulators" where
  "cat_step row cat st =
     (let count = int (count_list row cat) in
      \<lparr> agreement = dd_add cat (choose2 count) (agreement st),
        potential = dd_add cat (of_int (count * int (length row)) - choose2 (count + 1))
                      (potential st) \<rparr>)"

text \<open>The body of the outer loop: \<open>for cat in set(row)\<close>.\<close>

definition row_step :: "'a list \<Rightarrow> 'a accumulators \<Rightarrow> 'a accumulators" where
  "row_step row st = fold (cat_step row) (remdups row) st"

text \<open>Both loops, from the two empty accumulators.\<close>

definition accumulate :: "'a list list \<Rightarrow> 'a accumulators" where
  "accumulate data = fold row_step data \<lparr> agreement = [], potential = [] \<rparr>"

text \<open>
  The dict comprehension \<open>{cat: agreement[cat] / potential[cat] for cat in agreement}\<close>,
  one key at a time; the first zero denominator raises.
\<close>

fun rates :: "'a list \<Rightarrow> 'a accumulators \<Rightarrow> ('a \<rightharpoonup> rat) \<Rightarrow> py_error + ('a \<rightharpoonup> rat)" where
  "rates [] st res = Inr res"
| "rates (cat # cats) st res =
     (if dd_get (potential st) cat = 0 then Inl ZeroDivisionError
      else rates cats st
             (res(cat \<mapsto> dd_get (agreement st) cat / dd_get (potential st) cat)))"

definition agreement_rate_by_category :: "'a list list \<Rightarrow> py_error + ('a \<rightharpoonup> rat)" where
  "agreement_rate_by_category data =
     (let st = accumulate data in rates (map fst (agreement st)) st Map.empty)"

text \<open>The values of \<open>agreement[cat]\<close> and \<open>potential[cat]\<close> when the loops are over.\<close>

definition agreement_count :: "'a list list \<Rightarrow> 'a \<Rightarrow> rat" where
  "agreement_count data cat = dd_get (agreement (accumulate data)) cat"

definition potential_count :: "'a list list \<Rightarrow> 'a \<Rightarrow> rat" where
  "potential_count data cat = dd_get (potential (accumulate data)) cat"

text \<open>The labels that occur in some row.\<close>

definition categories :: "'a list list \<Rightarrow> 'a set" where
  "categories data = \<Union> (set ` set data)"

text \<open>
  What one row adds to \<open>agreement[cat]\<close> and to \<open>potential[cat]\<close>: the two right-hand
  sides of the loop body, named so that the accumulated values can be written as sums
  over the rows.
\<close>

definition row_agreement :: "'a list \<Rightarrow> 'a \<Rightarrow> rat" where
  "row_agreement row cat = choose2 (int (count_list row cat))"

definition row_potential :: "'a list \<Rightarrow> 'a \<Rightarrow> rat" where
  "row_potential row cat =
     of_int (int (count_list row cat) * int (length row)) - choose2 (int (count_list row cat) + 1)"

subsection \<open>The rate as the specification words it\<close>

text \<open>
  These two definitions follow the specification's sentences, not the code:
  \<open>C(n,2) = n(n-1)/2\<close>, and the rate of a category is the sum over the rows of
  \<open>C(count,2)\<close> divided by the sum over the rows of
  \<open>count * rowLength - C(count+1,2)\<close>, \<open>count\<close> being the multiplicity of the
  category in the row.
\<close>

definition spec_choose2 :: "rat \<Rightarrow> rat" where
  "spec_choose2 n = n * (n - 1) / 2"

definition spec_rate :: "'a list list \<Rightarrow> 'a \<Rightarrow> rat" where
  "spec_rate data cat =
     (\<Sum>row\<leftarrow>data. spec_choose2 (of_nat (count_list row cat))) /
     (\<Sum>row\<leftarrow>data. of_nat (count_list row cat) * of_nat (length row)
                    - spec_choose2 (of_nat (count_list row cat) + 1))"

subsection \<open>Rounding to binary64\<close>

text \<open>
  \<open>rne\<close> rounds a rational to the nearest integer, a tie to the even one. \<open>ilog2 x\<close>
  is the exponent of a positive \<open>x\<close>: \<open>2^(ilog2 x) \<le> x < 2^(ilog2 x + 1)\<close>, found
  from the bit lengths of numerator and denominator. \<open>fl64 x\<close> is the binary64 number
  nearest to \<open>x\<close>: the significand \<open>|x| / 2^e\<close> with \<open>e = ilog2 |x| - 52\<close> lies in
  \<open>[2^52, 2^53)\<close> and is rounded to an integer of 53 bits.

  The exponent is not bounded. In this program a float is a count below the square of a
  row length times the number of rows, or a quotient of two such counts, so overflow and
  subnormal numbers would need a list of more than \<open>2^63\<close> items, which Python cannot
  hold.
\<close>

definition rne :: "rat \<Rightarrow> int" where
  "rne y = (let f = \<lfloor>y\<rfloor>; d = y - of_int f in
            if d < 1 / 2 then f else if 1 / 2 < d then f + 1
            else if even f then f else f + 1)"

definition ilog2 :: "rat \<Rightarrow> int" where
  "ilog2 x = (let (p, q) = quotient_of x; k = bitlen p - bitlen q in
              if 2 powi k \<le> x then k else k - 1)"

definition fl64 :: "rat \<Rightarrow> rat" where
  "fl64 x = (if x = 0 then 0 else
           let e = ilog2 \<bar>x\<bar> - 52 in sgn x * of_int (rne (\<bar>x\<bar> / 2 powi e)) * 2 powi e)"

subsection \<open>The program in binary64 arithmetic\<close>

text \<open>
  Where Python rounds:
  \<^item> \<open>n*(n-1)/2\<close>: the product of two ints is exact, and \<open>/\<close> on two ints returns the
    correctly rounded quotient;
  \<^item> \<open>count * len(row) - choose2(count + 1)\<close>: the int product is exact, it is
    converted to a float (rounded) for the subtraction, and the difference is rounded;
  \<^item> \<open>d[k] += x\<close>: the sum of the old value and \<open>x\<close> is rounded (the first time the
    old value is the int \<open>0\<close>);
  \<^item> \<open>agreement[cat] / potential[cat]\<close>: the quotient is rounded; a zero divisor
    raises.
\<close>

text \<open>\<^verbatim>\<open>def choose2(n): return n*(n-1)/2\<close>\<close>

definition choose2_f64 :: "int \<Rightarrow> rat" where
  "choose2_f64 n = fl64 (of_int (n * (n - 1)) / 2)"

text \<open>\<open>d[k] += x\<close> on floats.\<close>

definition dd_add_f64 :: "'a \<Rightarrow> rat \<Rightarrow> 'a pydict \<Rightarrow> 'a pydict" where
  "dd_add_f64 k x d = AList.update k (fl64 (dd_get d k + x)) d"

text \<open>The two loops and the comprehension, as in the exact embedding.\<close>

definition cat_step_f64 :: "'a list \<Rightarrow> 'a \<Rightarrow> 'a accumulators \<Rightarrow> 'a accumulators" where
  "cat_step_f64 row cat st =
     (let count = int (count_list row cat) in
      \<lparr> agreement = dd_add_f64 cat (choose2_f64 count) (agreement st),
        potential = dd_add_f64 cat
                      (fl64 (fl64 (of_int (count * int (length row))) - choose2_f64 (count + 1)))
                      (potential st) \<rparr>)"

definition row_step_f64 :: "'a list \<Rightarrow> 'a accumulators \<Rightarrow> 'a accumulators" where
  "row_step_f64 row st = fold (cat_step_f64 row) (remdups row) st"

definition accumulate_f64 :: "'a list list \<Rightarrow> 'a accumulators" where
  "accumulate_f64 data = fold row_step_f64 data \<lparr> agreement = [], potential = [] \<rparr>"

fun rates_f64 :: "'a list \<Rightarrow> 'a accumulators \<Rightarrow> ('a \<rightharpoonup> rat) \<Rightarrow> py_error + ('a \<rightharpoonup> rat)" where
  "rates_f64 [] st res = Inr res"
| "rates_f64 (cat # cats) st res =
     (if dd_get (potential st) cat = 0 then Inl ZeroDivisionError
      else rates_f64 cats st
             (res(cat \<mapsto> fl64 (dd_get (agreement st) cat / dd_get (potential st) cat))))"

definition agreement_rate_by_category_f64 :: "'a list list \<Rightarrow> py_error + ('a \<rightharpoonup> rat)" where
  "agreement_rate_by_category_f64 data =
     (let st = accumulate_f64 data in rates_f64 (map fst (agreement st)) st Map.empty)"

text \<open>The values of \<open>agreement[cat]\<close> and \<open>potential[cat]\<close> when the loops are over.\<close>

definition agreement_count_f64 :: "'a list list \<Rightarrow> 'a \<Rightarrow> rat" where
  "agreement_count_f64 data cat = dd_get (agreement (accumulate_f64 data)) cat"

definition potential_count_f64 :: "'a list list \<Rightarrow> 'a \<Rightarrow> rat" where
  "potential_count_f64 data cat = dd_get (potential (accumulate_f64 data)) cat"

text \<open>What one row adds to the two entries of a category it contains.\<close>

definition row_agreement_f64 :: "'a list \<Rightarrow> 'a \<Rightarrow> rat" where
  "row_agreement_f64 row cat = choose2_f64 (int (count_list row cat))"

definition row_potential_f64 :: "'a list \<Rightarrow> 'a \<Rightarrow> rat" where
  "row_potential_f64 row cat =
     fl64 (fl64 (of_int (int (count_list row cat) * int (length row)))
           - choose2_f64 (int (count_list row cat) + 1))"

text \<open>
  The datasets on which no accumulated number is rounded: the squares of the row lengths
  sum to at most \<open>2^53\<close>. No count exceeds that sum, and every integer up to \<open>2^53\<close>
  is a binary64 number.
\<close>

definition exact_range :: "'a list list \<Rightarrow> bool" where
  "exact_range data \<longleftrightarrow> (\<Sum>row\<leftarrow>data. int (length row) * int (length row)) \<le> 2 ^ 53"

text \<open>
  The two entries of a category are integers between 0 and a bound \<open>B\<close>: the invariant
  of the loops when the two embeddings are compared, \<open>B\<close> being the sum of the squares of
  the lengths of the rows already read.
\<close>

definition small_entry :: "'a accumulators \<Rightarrow> int \<Rightarrow> 'a \<Rightarrow> bool" where
  "small_entry st B k \<longleftrightarrow>
     dd_get (agreement st) k \<in> \<int> \<and> 0 \<le> dd_get (agreement st) k \<and>
     dd_get (agreement st) k \<le> of_int B \<and>
     dd_get (potential st) k \<in> \<int> \<and> 0 \<le> dd_get (potential st) k \<and>
     dd_get (potential st) k \<le> of_int B"

section \<open>The accumulators as sums over the rows\<close>

text \<open>Unfolding these evaluates the program on a concrete dataset.\<close>

lemmas run_defs =
  agreement_rate_by_category_def accumulate_def row_step_def cat_step_def
  dd_add_def dd_get_def choose2_def agreement_count_def potential_count_def

subsection \<open>One step of each loop\<close>

lemma dd_get_add: "dd_get (dd_add k x d) k' = dd_get d k' + (if k' = k then x else 0)"
  by (simp add: dd_get_def dd_add_def update_conv')

lemma keys_dd_add: "fst ` set (dd_add k x d) = insert k (fst ` set d)"
  using dom_update [of k "dd_get d k + x" d] by (simp add: dd_add_def)

lemma choose2_0: "choose2 0 = 0" by (simp add: choose2_def)
lemma choose2_1: "choose2 1 = 0" by (simp add: choose2_def)

lemma cat_step_agreement:
  "dd_get (agreement (cat_step row c st)) k =
     dd_get (agreement st) k + (if k = c then row_agreement row c else 0)"
  by (simp add: cat_step_def Let_def dd_get_add row_agreement_def)

lemma cat_step_potential:
  "dd_get (potential (cat_step row c st)) k =
     dd_get (potential st) k + (if k = c then row_potential row c else 0)"
  by (simp add: cat_step_def Let_def dd_get_add row_potential_def)

lemma cat_step_keys:
  "fst ` set (agreement (cat_step row c st)) = insert c (fst ` set (agreement st))"
  by (simp add: cat_step_def Let_def keys_dd_add)

lemma fold_cat_step_agreement:
  "distinct cs \<Longrightarrow>
   dd_get (agreement (fold (cat_step row) cs st)) k =
     dd_get (agreement st) k + (if k \<in> set cs then row_agreement row k else 0)"
  by (induction cs arbitrary: st) (auto simp: cat_step_agreement)

lemma fold_cat_step_potential:
  "distinct cs \<Longrightarrow>
   dd_get (potential (fold (cat_step row) cs st)) k =
     dd_get (potential st) k + (if k \<in> set cs then row_potential row k else 0)"
  by (induction cs arbitrary: st) (auto simp: cat_step_potential)

lemma fold_cat_step_keys:
  "fst ` set (agreement (fold (cat_step row) cs st)) = set cs \<union> fst ` set (agreement st)"
  by (induction cs arbitrary: st) (auto simp: cat_step_keys)

lemma row_agreement_absent: "k \<notin> set row \<Longrightarrow> row_agreement row k = 0"
  by (simp add: row_agreement_def choose2_0)

lemma row_potential_absent: "k \<notin> set row \<Longrightarrow> row_potential row k = 0"
  by (simp add: row_potential_def choose2_1)

lemma row_step_agreement:
  "dd_get (agreement (row_step row st)) k = dd_get (agreement st) k + row_agreement row k"
  by (simp add: row_step_def fold_cat_step_agreement row_agreement_absent)

lemma row_step_potential:
  "dd_get (potential (row_step row st)) k = dd_get (potential st) k + row_potential row k"
  by (simp add: row_step_def fold_cat_step_potential row_potential_absent)

lemma row_step_keys:
  "fst ` set (agreement (row_step row st)) = set row \<union> fst ` set (agreement st)"
  by (simp add: row_step_def fold_cat_step_keys)

lemma fold_row_step_agreement:
  "dd_get (agreement (fold row_step data st)) k =
     dd_get (agreement st) k + (\<Sum>row\<leftarrow>data. row_agreement row k)"
  by (induction data arbitrary: st) (simp_all add: row_step_agreement)

lemma fold_row_step_potential:
  "dd_get (potential (fold row_step data st)) k =
     dd_get (potential st) k + (\<Sum>row\<leftarrow>data. row_potential row k)"
  by (induction data arbitrary: st) (simp_all add: row_step_potential)

lemma fold_row_step_keys:
  "fst ` set (agreement (fold row_step data st)) =
     categories data \<union> fst ` set (agreement st)"
  by (induction data arbitrary: st) (auto simp: row_step_keys categories_def)

subsection \<open>After the loops, and the comprehension\<close>

lemma dd_get_Nil: "dd_get [] k = 0"
  by (simp add: dd_get_def)

lemma agreement_count_sum: "agreement_count data k = (\<Sum>row\<leftarrow>data. row_agreement row k)"
  by (simp add: agreement_count_def accumulate_def fold_row_step_agreement dd_get_Nil)

lemma potential_count_sum: "potential_count data k = (\<Sum>row\<leftarrow>data. row_potential row k)"
  by (simp add: potential_count_def accumulate_def fold_row_step_potential dd_get_Nil)

lemma accumulate_keys: "fst ` set (agreement (accumulate data)) = categories data"
  by (simp add: accumulate_def fold_row_step_keys)

lemma rates_char:
  "rates cats st res =
     (if \<exists>c\<in>set cats. dd_get (potential st) c = 0 then Inl ZeroDivisionError
      else Inr (\<lambda>c. if c \<in> set cats
                     then Some (dd_get (agreement st) c / dd_get (potential st) c)
                     else res c))"
  by (induction cats arbitrary: res) (auto simp: fun_eq_iff)

lemma rate_by_category_char:
  "agreement_rate_by_category data =
     (if \<exists>c\<in>categories data. potential_count data c = 0 then Inl ZeroDivisionError
      else Inr (\<lambda>c. if c \<in> categories data
                     then Some (agreement_count data c / potential_count data c)
                     else None))"
  unfolding agreement_rate_by_category_def Let_def rates_char
    agreement_count_def potential_count_def
  using accumulate_keys [of data] by simp

subsection \<open>Integers, signs and the order of the two counts\<close>

text \<open>
  \<open>n * (n - 1)\<close> is even, so \<open>choose2\<close> is an integer; and a row adds to the
  potential what it adds to the agreement plus \<open>count * (len(row) - count)\<close>.
\<close>

lemma choose2_Ints: "choose2 n \<in> \<int>"
proof -
  have "of_int (n * (n - 1)) / (of_int 2 :: rat) \<in> \<int>"
    by (rule of_int_divide_in_Ints) simp
  then show ?thesis by (simp add: choose2_def)
qed

lemma choose2_nonneg: "0 \<le> choose2 (int n)"
proof (cases n)
  case 0
  then show ?thesis by (simp add: choose2_def)
next
  case (Suc m)
  then show ?thesis by (simp add: choose2_def)
qed

lemma row_agreement_Ints: "row_agreement row k \<in> \<int>"
  by (simp add: row_agreement_def choose2_Ints)

lemma row_potential_Ints: "row_potential row k \<in> \<int>"
  by (simp add: row_potential_def choose2_Ints)

lemma row_agreement_nonneg: "0 \<le> row_agreement row k"
  by (simp add: row_agreement_def choose2_nonneg)

lemma row_potential_split:
  "row_potential row k =
     of_nat (count_list row k * (length row - count_list row k)) + row_agreement row k"
proof -
  have "count_list row k \<le> length row" by (rule count_le_length)
  then show ?thesis
    by (simp add: row_potential_def row_agreement_def choose2_def of_nat_diff field_simps)
qed

lemma row_agreement_le_potential: "row_agreement row k \<le> row_potential row k"
  by (simp add: row_potential_split)

lemma row_potential_nonneg: "0 \<le> row_potential row k"
  using row_agreement_nonneg [of row k] row_agreement_le_potential [of row k] by simp

lemma sum_list_Ints: "(\<And>x. x \<in> set xs \<Longrightarrow> f x \<in> \<int>) \<Longrightarrow> (\<Sum>x\<leftarrow>xs. f x :: rat) \<in> \<int>"
  by (induction xs) simp_all

lemma agreement_count_Ints: "agreement_count data k \<in> \<int>"
  by (simp add: agreement_count_sum sum_list_Ints row_agreement_Ints)

lemma potential_count_Ints: "potential_count data k \<in> \<int>"
  by (simp add: potential_count_sum sum_list_Ints row_potential_Ints)

lemma agreement_count_nonneg: "0 \<le> agreement_count data k"
  unfolding agreement_count_sum by (rule sum_list_nonneg) (auto simp: row_agreement_nonneg)

lemma potential_count_nonneg: "0 \<le> potential_count data k"
  unfolding potential_count_sum by (rule sum_list_nonneg) (auto simp: row_potential_nonneg)

lemma agreement_le_potential: "agreement_count data k \<le> potential_count data k"
  unfolding agreement_count_sum potential_count_sum
  by (rule sum_list_mono) (rule row_agreement_le_potential)

subsection \<open>When the potential is zero\<close>

lemma row_potential_singleton: "length row = 1 \<Longrightarrow> row_potential row k = 0"
proof -
  assume len: "length row = 1"
  have "count_list row k \<le> 1" using count_le_length [of row k] len by simp
  then have "count_list row k = 0 \<or> count_list row k = 1" by auto
  then show ?thesis
    using len by (auto simp: row_potential_def choose2_def)
qed

lemma row_potential_pos:
  assumes "k \<in> set row" and "2 \<le> length row"
  shows "0 < row_potential row k"
proof -
  let ?c = "count_list row k"
  have pos: "0 < ?c" using assms(1) count_list_0_iff [of row k] by auto
  have le: "?c \<le> length row" by (rule count_le_length)
  show ?thesis
  proof (cases "?c = length row")
    case True
    have "(of_nat 2 :: rat) \<le> of_nat (length row)"
      using assms(2) by (simp only: of_nat_le_iff)
    then have "(2::rat) \<le> of_nat (length row)" by simp
    then have "0 < (of_nat (length row) :: rat) * (of_nat (length row) - 1)"
      by (intro mult_pos_pos) linarith+
    then have "0 < row_agreement row k"
      by (simp add: row_agreement_def choose2_def True)
    then show ?thesis by (simp add: row_potential_split True)
  next
    case False
    then have "0 < ?c * (length row - ?c)" using pos le by simp
    then have "(0::rat) < of_nat (?c * (length row - ?c))" by (simp only: of_nat_0_less_iff)
    then show ?thesis
      using row_agreement_nonneg [of row k] by (simp only: row_potential_split)
  qed
qed

lemma row_potential_zero_iff:
  "row_potential row k = 0 \<longleftrightarrow> (k \<in> set row \<longrightarrow> length row = 1)"
proof (cases "k \<in> set row")
  case False
  then show ?thesis by (simp add: row_potential_absent)
next
  case True
  then have "length row \<noteq> 0" by auto
  then have "length row = 1 \<or> 2 \<le> length row" by arith
  then show ?thesis
    using True row_potential_pos [of k row] row_potential_singleton [of row k] by auto
qed

lemma potential_count_zero_iff:
  "potential_count data k = 0 \<longleftrightarrow> (\<forall>row\<in>set data. k \<in> set row \<longrightarrow> length row = 1)"
proof -
  have "(\<Sum>row\<leftarrow>data. row_potential row k) = 0 \<longleftrightarrow>
          (\<forall>x\<in>set (map (\<lambda>row. row_potential row k) data). x = 0)"
    by (rule sum_list_nonneg_eq_0_iff) (auto simp: row_potential_nonneg)
  then show ?thesis
    by (simp add: potential_count_sum row_potential_zero_iff)
qed

lemma potential_count_absent: "k \<notin> categories data \<Longrightarrow> potential_count data k = 0"
  by (simp add: potential_count_zero_iff categories_def)

subsection \<open>When agreement and potential coincide\<close>

lemma count_list_eq_length_iff: "count_list xs k = length xs \<longleftrightarrow> (\<forall>x\<in>set xs. x = k)"
proof (induction xs)
  case Nil
  then show ?case by simp
next
  case (Cons x xs)
  have "count_list xs k \<noteq> Suc (length xs)"
    using count_le_length [of xs k] by simp
  then show ?case using Cons by auto
qed

lemma potential_count_split:
  "potential_count data k =
     (\<Sum>row\<leftarrow>data. of_nat (count_list row k * (length row - count_list row k))) +
     agreement_count data k"
  by (simp add: potential_count_sum agreement_count_sum row_potential_split sum_list_addf)

lemma agreement_eq_potential_iff:
  "agreement_count data k = potential_count data k \<longleftrightarrow>
     (\<forall>row\<in>set data. k \<in> set row \<longrightarrow> (\<forall>x\<in>set row. x = k))"
proof -
  let ?f = "\<lambda>row. (of_nat (count_list row k * (length row - count_list row k)) :: rat)"
  have "(\<Sum>row\<leftarrow>data. ?f row) = 0 \<longleftrightarrow> (\<forall>x\<in>set (map ?f data). x = 0)"
    by (rule sum_list_nonneg_eq_0_iff) auto
  moreover have "?f row = 0 \<longleftrightarrow> (k \<in> set row \<longrightarrow> (\<forall>x\<in>set row. x = k))" for row
    using count_le_length [of row k]
    by (auto simp: count_list_0_iff simp flip: count_list_eq_length_iff)
  ultimately show ?thesis
    by (simp add: potential_count_split)
qed

subsection \<open>Rows as multisets\<close>

lemma row_agreement_mset: "row_agreement row k = choose2 (int (count (mset row) k))"
  by (simp add: row_agreement_def count_mset)

lemma row_potential_mset:
  "row_potential row k =
     of_int (int (count (mset row) k) * int (size (mset row)))
       - choose2 (int (count (mset row) k) + 1)"
  by (simp add: row_potential_def count_mset)

lemma sum_list_rows_mset:
  assumes "mset (map mset data) = mset (map mset data')"
  shows "(\<Sum>row\<leftarrow>data. g (mset row) :: rat) = (\<Sum>row\<leftarrow>data'. g (mset row))"
proof -
  have "(\<Sum>row\<leftarrow>rows. g (mset row)) = sum_mset (image_mset g (mset (map mset rows)))"
    for rows :: "'a list list"
  proof -
    have "(\<Sum>row\<leftarrow>rows. g (mset row)) = sum_list (map g (map mset rows))"
      by (simp add: comp_def)
    also have "\<dots> = sum_mset (mset (map g (map mset rows)))"
      by (simp only: sum_mset_sum_list)
    finally show ?thesis by (simp only: mset_map)
  qed
  then show ?thesis by (simp only: assms)
qed

lemma agreement_count_mset:
  "mset (map mset data) = mset (map mset data') \<Longrightarrow>
   agreement_count data k = agreement_count data' k"
  unfolding agreement_count_sum row_agreement_mset
  by (rule sum_list_rows_mset [where g = "\<lambda>M. choose2 (int (count M k))"])

lemma potential_count_mset:
  "mset (map mset data) = mset (map mset data') \<Longrightarrow>
   potential_count data k = potential_count data' k"
  unfolding potential_count_sum row_potential_mset
  by (rule sum_list_rows_mset
      [where g = "\<lambda>M. of_int (int (count M k) * int (size M)) - choose2 (int (count M k) + 1)"])

lemma categories_mset:
  assumes "mset (map mset data) = mset (map mset data')"
  shows "categories data = categories data'"
proof -
  have "categories data = \<Union> (set_mset ` set_mset (mset (map mset data)))" for data :: "'a list list"
    by (simp add: categories_def)
  then show ?thesis by (simp only: assms)
qed

subsection \<open>The specification's formula and the repeated row\<close>

lemma spec_rate_eq: "spec_rate data cat = agreement_count data cat / potential_count data cat"
proof -
  have "spec_choose2 (of_nat (count_list row cat)) = row_agreement row cat" for row :: "'a list"
    by (simp add: spec_choose2_def row_agreement_def choose2_def)
  moreover have "of_nat (count_list row cat) * of_nat (length row)
                   - spec_choose2 (of_nat (count_list row cat) + 1) = row_potential row cat"
    for row :: "'a list"
    by (simp add: spec_choose2_def row_potential_def choose2_def)
  ultimately show ?thesis
    by (simp add: spec_rate_def agreement_count_sum potential_count_sum)
qed

lemma categories_replicate: "0 < n \<Longrightarrow> categories (replicate n r) = set r"
  by (auto simp: categories_def)

section \<open>Properties of the rounding\<close>

subsection \<open>Rounding to an integer\<close>

lemma rne_of_int: "rne (of_int k) = k"
  by (simp add: rne_def)

lemma rne_le: "y \<le> of_int k \<Longrightarrow> rne y \<le> k"
proof -
  assume le: "y \<le> of_int k"
  have f: "\<lfloor>y\<rfloor> \<le> k" using le by (simp add: floor_le_iff) 
  show ?thesis
  proof (cases "y = of_int \<lfloor>y\<rfloor>")
    case True
    then have "rne y = \<lfloor>y\<rfloor>" by (simp add: rne_def Let_def)
    then show ?thesis using f by simp
  next
    case False
    then have "of_int \<lfloor>y\<rfloor> < y" using of_int_floor_le [of y] by linarith
    then have "of_int \<lfloor>y\<rfloor> < (of_int k :: rat)" using le by simp
    then have "\<lfloor>y\<rfloor> < k" by (simp only: of_int_less_iff)
    then show ?thesis by (simp add: rne_def Let_def)
  qed
qed

lemma rne_ge: "of_int k \<le> y \<Longrightarrow> k \<le> rne y"
proof -
  assume "of_int k \<le> y"
  then have "k \<le> \<lfloor>y\<rfloor>" by (simp add: le_floor_iff)
  then show ?thesis by (simp add: rne_def Let_def)
qed

lemma rne_nonneg: "0 \<le> y \<Longrightarrow> 0 \<le> rne y"
  using rne_ge [of 0 y] by simp

lemma rne_mono: "y \<le> z \<Longrightarrow> rne y \<le> rne z"
proof -
  assume le: "y \<le> z"
  then have fl: "\<lfloor>y\<rfloor> \<le> \<lfloor>z\<rfloor>" by (rule floor_mono)
  show ?thesis
  proof (cases "\<lfloor>y\<rfloor> = \<lfloor>z\<rfloor>")
    case True
    then have "y - of_int \<lfloor>y\<rfloor> \<le> z - of_int \<lfloor>z\<rfloor>" using le by simp
    then show ?thesis using True by (auto simp: rne_def Let_def)
  next
    case False
    with fl have "\<lfloor>y\<rfloor> + 1 \<le> \<lfloor>z\<rfloor>" by simp
    moreover have "rne y \<le> \<lfloor>y\<rfloor> + 1" by (simp add: rne_def Let_def)
    moreover have "\<lfloor>z\<rfloor> \<le> rne z" by (simp add: rne_def Let_def)
    ultimately show ?thesis by linarith
  qed
qed

subsection \<open>The exponent\<close>

lemma two_powi_less_iff: "(2::rat) powi m < 2 powi n \<longleftrightarrow> m < n"
proof
  assume "(2::rat) powi m < 2 powi n"
  show "m < n"
  proof (rule ccontr)
    assume "\<not> m < n"
    then have "n \<le> m" by simp
    then have "(2::rat) powi n \<le> 2 powi m" by (rule power_int_increasing) simp
    with \<open>(2::rat) powi m < 2 powi n\<close> show False by simp
  qed
next
  assume "m < n"
  then show "(2::rat) powi m < 2 powi n" by (rule power_int_strict_increasing) simp
qed

lemma two_powi_le_iff: "(2::rat) powi m \<le> 2 powi n \<longleftrightarrow> m \<le> n"
  using two_powi_less_iff [of n m] by (auto simp: not_less [symmetric])

lemma ilog2_bounds:
  assumes "0 < x"
  shows "2 powi (ilog2 x) \<le> x" and "x < 2 powi (ilog2 x + 1)"
proof -
  obtain p q where pq: "quotient_of x = (p, q)" by (cases "quotient_of x")
  then have q: "0 < q" by (rule quotient_of_denom_pos)
  have x: "x = of_int p / of_int q" using pq by (rule quotient_of_div)
  have p: "0 < p" using assms q unfolding x by (simp add: zero_less_divide_iff)
  define bp where "bp = bitlen p"
  define bq where "bq = bitlen q"
  have bp: "1 \<le> bp" using p bitlen_eq_zero_iff [of p] bitlen_nonneg [of p] by (simp add: bp_def)
  have bq: "1 \<le> bq" using q bitlen_eq_zero_iff [of q] bitlen_nonneg [of q] by (simp add: bq_def)
  have "2 ^ nat (bp - 1) \<le> p" "p < 2 ^ nat bp" "2 ^ nat (bq - 1) \<le> q" "q < 2 ^ nat bq"
    using bitlen_bounds [OF p] bitlen_bounds [OF q] by (simp_all add: bp_def bq_def)
  then have "(of_int (2 ^ nat (bp - 1)) :: rat) \<le> of_int p" "(of_int p :: rat) < of_int (2 ^ nat bp)"
    "(of_int (2 ^ nat (bq - 1)) :: rat) \<le> of_int q" "(of_int q :: rat) < of_int (2 ^ nat bq)"
    by (simp_all only: of_int_le_iff of_int_less_iff)
  then have bnd: "(2::rat) powi (bp - 1) \<le> of_int p" "(of_int p :: rat) < 2 powi bp"
    "(2::rat) powi (bq - 1) \<le> of_int q" "(of_int q :: rat) < 2 powi bq"
    using bp bq by (simp_all add: power_int_def)
  have qpos: "(0::rat) < of_int q" using q by simp
  have lo: "2 powi (bp - bq - 1) < x"
  proof -
    have "(2::rat) powi (bp - bq - 1) = 2 powi (bp - 1) / 2 powi bq"
      by (subst power_int_diff [symmetric]) (simp_all add: algebra_simps)
    also have "\<dots> \<le> of_int p / 2 powi bq"
      using bnd(1) by (simp add: divide_right_mono)
    also have "\<dots> < of_int p / of_int q"
      using bnd(4) p qpos by (simp add: divide_strict_left_mono)
    finally show ?thesis by (simp add: x)
  qed
  have hi: "x < 2 powi (bp - bq + 1)"
  proof -
    have "x = of_int p / of_int q" by (rule x)
    also have "\<dots> < 2 powi bp / of_int q"
      using bnd(2) qpos by (simp add: divide_strict_right_mono)
    also have "\<dots> \<le> 2 powi bp / 2 powi (bq - 1)"
      using bnd(3) qpos by (intro divide_left_mono) simp_all
    also have "\<dots> = 2 powi (bp - bq + 1)"
      by (subst power_int_diff [symmetric]) (simp_all add: algebra_simps)
    finally show ?thesis .
  qed
  have il: "ilog2 x = (if 2 powi (bp - bq) \<le> x then bp - bq else bp - bq - 1)"
    by (simp add: ilog2_def pq bp_def bq_def)
  show "2 powi (ilog2 x) \<le> x" using lo by (simp add: il)
  show "x < 2 powi (ilog2 x + 1)" using hi by (auto simp: il)
qed

lemma ilog2_unique:
  assumes "2 powi e \<le> x" and "x < 2 powi (e + 1)"
  shows "ilog2 x = e"
proof -
  have "(0::rat) < 2 powi e" by simp
  then have pos: "0 < x" using assms(1) by linarith
  have "(2::rat) powi (ilog2 x) < 2 powi (e + 1)"
    using ilog2_bounds(1) [OF pos] assms(2) by simp
  moreover have "(2::rat) powi e < 2 powi (ilog2 x + 1)"
    using ilog2_bounds(2) [OF pos] assms(1) by simp
  ultimately show ?thesis by (simp add: two_powi_less_iff)
qed

lemma ilog2_mono:
  assumes "0 < x" and "x \<le> y"
  shows "ilog2 x \<le> ilog2 y"
proof -
  have y: "0 < y" using assms by simp
  have "(2::rat) powi (ilog2 x) < 2 powi (ilog2 y + 1)"
    using ilog2_bounds(1) [OF assms(1)] ilog2_bounds(2) [OF y] assms(2) by linarith
  then have "ilog2 x < ilog2 y + 1" by (simp only: two_powi_less_iff)
  then show ?thesis by simp
qed

lemma ilog2_neg:
  assumes "0 < x" and "x < 1"
  shows "ilog2 x \<le> - 1"
proof -
  have "(2::rat) powi (ilog2 x) < 2 powi 0"
    using ilog2_bounds(1) [OF assms(1)] assms(2) by simp
  then have "ilog2 x < 0" by (simp only: two_powi_less_iff)
  then show ?thesis by simp
qed

subsection \<open>Bounds, monotonicity and the numbers that are not rounded\<close>

lemma fl64_pos_eq:
  "0 < x \<Longrightarrow> fl64 x = of_int (rne (x / 2 powi (ilog2 x - 52))) * 2 powi (ilog2 x - 52)"
  by (simp add: fl64_def Let_def)

lemma fl64_zero: "fl64 0 = 0"
  by (simp add: fl64_def)

lemma fl64_nonneg: "0 \<le> x \<Longrightarrow> 0 \<le> fl64 x"
proof (cases "x = 0")
  case True
  then show ?thesis by (simp add: fl64_zero)
next
  case False
  assume "0 \<le> x"
  with False have pos: "0 < x" by simp
  then have "0 \<le> x / 2 powi (ilog2 x - 52)" by simp
  then have "0 \<le> rne (x / 2 powi (ilog2 x - 52))" by (rule rne_nonneg)
  then show ?thesis by (simp add: fl64_pos_eq [OF pos])
qed

lemma scaled_less:
  assumes "0 < x"
  shows "x / 2 powi (ilog2 x - 52) < 2 ^ 53"
proof -
  have "x / 2 powi (ilog2 x - 52) < 2 powi (ilog2 x + 1) / 2 powi (ilog2 x - 52)"
    using ilog2_bounds(2) [OF assms] by (simp add: divide_strict_right_mono)
  also have "\<dots> = 2 powi 53"
    by (subst power_int_diff [symmetric]) simp_all
  finally show ?thesis by simp
qed

lemma fl64_upper:
  assumes "0 < x"
  shows "fl64 x \<le> 2 powi (ilog2 x + 1)"
proof -
  let ?e = "ilog2 x - 52"
  have "x / 2 powi ?e \<le> of_int (2 ^ 53)"
    using scaled_less [OF assms] by simp
  then have "rne (x / 2 powi ?e) \<le> 2 ^ 53" by (rule rne_le)
  then have "(of_int (rne (x / 2 powi ?e)) :: rat) \<le> of_int (2 ^ 53)"
    by (simp only: of_int_le_iff)
  then have "fl64 x \<le> of_int (2 ^ 53) * 2 powi ?e"
    by (simp add: fl64_pos_eq [OF assms] mult_right_mono)
  also have "\<dots> = 2 powi 53 * 2 powi ?e" by simp
  also have "\<dots> = 2 powi (ilog2 x + 1)"
    by (subst power_int_add [symmetric]) (simp_all add: algebra_simps)
  finally show ?thesis .
qed

lemma fl64_lower:
  assumes "0 < x"
  shows "2 powi (ilog2 x) \<le> fl64 x"
proof -
  let ?e = "ilog2 x - 52"
  have "2 powi (ilog2 x) / 2 powi ?e \<le> x / 2 powi ?e"
    using ilog2_bounds(1) [OF assms] by (simp add: divide_right_mono)
  moreover have "(2::rat) powi (ilog2 x) / 2 powi ?e = 2 powi 52"
    by (subst power_int_diff [symmetric]) simp_all
  ultimately have "of_int (2 ^ 52) \<le> x / 2 powi ?e" by simp
  then have "2 ^ 52 \<le> rne (x / 2 powi ?e)" by (rule rne_ge)
  then have "(of_int (2 ^ 52) :: rat) \<le> of_int (rne (x / 2 powi ?e))"
    by (simp only: of_int_le_iff)
  then have "of_int (2 ^ 52) * 2 powi ?e \<le> fl64 x"
    by (simp add: fl64_pos_eq [OF assms] mult_right_mono)
  moreover have "(of_int (2 ^ 52) :: rat) * 2 powi ?e = 2 powi (ilog2 x)"
  proof -
    have "(of_int (2 ^ 52) :: rat) * 2 powi ?e = 2 powi 52 * 2 powi ?e" by simp
    also have "\<dots> = 2 powi (ilog2 x)"
      by (subst power_int_add [symmetric]) (simp_all add: algebra_simps)
    finally show ?thesis .
  qed
  ultimately show ?thesis by simp
qed

lemma fl64_mono:
  assumes "0 \<le> x" and "x \<le> y"
  shows "fl64 x \<le> fl64 y"
proof (cases "x = 0")
  case True
  then show ?thesis using assms fl64_nonneg [of y] by (simp add: fl64_zero)
next
  case False
  then have x: "0 < x" using assms(1) by simp
  then have y: "0 < y" using assms(2) by simp
  show ?thesis
  proof (cases "ilog2 x = ilog2 y")
    case True
    let ?e = "ilog2 y - 52"
    have "x / 2 powi ?e \<le> y / 2 powi ?e"
      using assms(2) by (simp add: divide_right_mono)
    then have "rne (x / 2 powi ?e) \<le> rne (y / 2 powi ?e)" by (rule rne_mono)
    then have "(of_int (rne (x / 2 powi ?e)) :: rat) \<le> of_int (rne (y / 2 powi ?e))"
      by (simp only: of_int_le_iff)
    then show ?thesis
      by (simp add: fl64_pos_eq [OF x] fl64_pos_eq [OF y] True mult_right_mono)
  next
    case False
    then have "ilog2 x + 1 \<le> ilog2 y" using ilog2_mono [OF x assms(2)] by simp
    then have "(2::rat) powi (ilog2 x + 1) \<le> 2 powi (ilog2 y)"
      by (simp only: two_powi_le_iff)
    then show ?thesis using fl64_upper [OF x] fl64_lower [OF y] by linarith
  qed
qed

lemma fl64_exact_scaled:
  assumes "0 < x" and "x / 2 powi (ilog2 x - 52) = of_int k"
  shows "fl64 x = x"
proof -
  have "fl64 x = of_int k * 2 powi (ilog2 x - 52)"
    by (simp add: fl64_pos_eq [OF assms(1)] assms(2) rne_of_int)
  also have "\<dots> = x" by (simp add: assms(2) [symmetric])
  finally show ?thesis .
qed

lemma fl64_two_53: "fl64 (2 ^ 53) = 2 ^ 53"
  by code_simp

lemma fl64_int_exact:
  assumes "0 \<le> n" and "n \<le> 2 ^ 53"
  shows "fl64 (of_int n) = of_int n"
proof (cases "n = 0 \<or> n = 2 ^ 53")
  case True
  then show ?thesis using fl64_two_53 by (auto simp: fl64_zero)
next
  case False
  with assms have n: "0 < n" "n < 2 ^ 53" by simp_all
  let ?x = "of_int n :: rat"
  have pos: "0 < ?x" using n by simp
  have "1 \<le> n" using n by simp
  then have "(of_int 1 :: rat) \<le> ?x" by (simp only: of_int_le_iff)
  then have ge1: "(2::rat) powi 0 \<le> ?x" by simp
  have "?x < of_int (2 ^ 53)" using n by (simp only: of_int_less_iff)
  then have lt: "?x < 2 powi 53" by simp
  have "(2::rat) powi 0 < 2 powi (ilog2 ?x + 1)"
    using ilog2_bounds(2) [OF pos] ge1 by linarith
  then have "0 < ilog2 ?x + 1" by (simp only: two_powi_less_iff)
  then have lo: "0 \<le> ilog2 ?x" by simp
  have "(2::rat) powi (ilog2 ?x) < 2 powi 53"
    using ilog2_bounds(1) [OF pos] lt by linarith
  then have "ilog2 ?x < 53" by (simp only: two_powi_less_iff)
  then have hi: "ilog2 ?x \<le> 52" by simp
  define d where "d = nat (52 - ilog2 ?x)"
  have e: "ilog2 ?x - 52 = - int d" using hi by (simp add: d_def)
  have "?x / 2 powi (ilog2 ?x - 52) = of_int (n * 2 ^ d)"
    by (simp add: e power_int_minus field_simps)
  with pos show ?thesis by (rule fl64_exact_scaled)
qed

lemma fl64_one: "fl64 1 = 1"
  using fl64_int_exact [of 1] by simp

lemma fl64_Ints_exact:
  assumes "x \<in> \<int>" and "0 \<le> x" and "x \<le> 2 ^ 53"
  shows "fl64 x = x"
proof -
  from assms(1) obtain n where x: "x = of_int n" by (auto elim: Ints_cases)
  have "(of_int 0 :: rat) \<le> of_int n" using assms(2) by (simp add: x)
  then have "0 \<le> n" by (simp only: of_int_le_iff)
  moreover have "(of_int n :: rat) \<le> of_int (2 ^ 53)" using assms(3) by (simp add: x)
  then have "n \<le> 2 ^ 53" by (simp only: of_int_le_iff)
  ultimately show ?thesis unfolding x by (rule fl64_int_exact)
qed

lemma fl64_Ints:
  assumes "x \<in> \<int>" and "0 \<le> x"
  shows "fl64 x \<in> \<int>"
proof (cases "x \<le> 2 ^ 53")
  case True
  then show ?thesis using assms by (simp add: fl64_Ints_exact)
next
  case False
  then have big: "2 powi 53 < x" by simp
  have "(0::rat) < 2 powi 53" by simp
  with big have x: "0 < x" by linarith
  have "(2::rat) powi 53 < 2 powi (ilog2 x + 1)"
    using big ilog2_bounds(2) [OF x] by linarith
  then have "53 < ilog2 x + 1" by (simp only: two_powi_less_iff)
  then have e: "0 \<le> ilog2 x - 52" by simp
  have "fl64 x = of_int (rne (x / 2 powi (ilog2 x - 52)) * 2 ^ nat (ilog2 x - 52))"
    using e by (simp add: fl64_pos_eq [OF x] power_int_def)
  then show ?thesis by (simp only: Ints_of_int)
qed

lemma fl64_le_one:
  assumes "0 \<le> x" and "x \<le> 1"
  shows "fl64 x \<le> 1"
proof (cases "x = 0 \<or> x = 1")
  case True
  then show ?thesis by (auto simp: fl64_zero fl64_one)
next
  case False
  with assms have x: "0 < x" "x < 1" by simp_all
  have "ilog2 x + 1 \<le> 0" using ilog2_neg [OF x] by simp
  then have "(2::rat) powi (ilog2 x + 1) \<le> 2 powi 0" by (simp only: two_powi_le_iff)
  then show ?thesis using fl64_upper [OF x(1)] by simp
qed

lemma fl64_less_one:
  assumes "0 \<le> x" and "x \<le> 1 - 1 / 2 ^ 53"
  shows "fl64 x < 1"
proof (cases "x = 0")
  case True
  then show ?thesis by (simp add: fl64_zero)
next
  case False
  with assms have x: "0 < x" "x < 1" by simp_all
  have il: "ilog2 x \<le> - 1" by (rule ilog2_neg [OF x])
  show ?thesis
  proof (cases "ilog2 x = - 1")
    case True
    have "x / 2 powi (- 53) \<le> (1 - 1 / 2 ^ 53) / 2 powi (- 53)"
      using assms(2) by (simp add: divide_right_mono)
    also have "\<dots> = of_int (2 ^ 53 - 1)" by simp
    finally have "rne (x / 2 powi (- 53)) \<le> 2 ^ 53 - 1" by (rule rne_le)
    then have "(of_int (rne (x / 2 powi (- 53))) :: rat) \<le> of_int (2 ^ 53 - 1)"
      by (simp only: of_int_le_iff)
    then have "fl64 x \<le> of_int (2 ^ 53 - 1) * 2 powi (- 53)"
      by (simp add: fl64_pos_eq [OF x(1)] True mult_right_mono)
    also have "\<dots> < 1" by simp
    finally show ?thesis .
  next
    case False
    with il have "ilog2 x + 1 \<le> - 1" by simp
    then have "(2::rat) powi (ilog2 x + 1) \<le> 2 powi (- 1)" by (simp only: two_powi_le_iff)
    then have "fl64 x \<le> 2 powi (- 1)" using fl64_upper [OF x(1)] by simp
    also have "\<dots> < (1::rat)" by simp
    finally show ?thesis .
  qed
qed

lemma quotient_below_one:
  assumes "a \<in> \<int>" and "p \<in> \<int>" and "0 \<le> a" and "a < p" and "p \<le> 2 ^ 53"
  shows "a / p \<le> 1 - 1 / 2 ^ 53" and "0 \<le> a / (p::rat)"
proof -
  from assms(1,2) obtain i j where a: "a = of_int i" and p: "p = of_int j"
    by (auto elim!: Ints_cases)
  have "i < j" using assms(4) unfolding a p by (simp only: of_int_less_iff)
  then have "i + 1 \<le> j" by simp
  then have "(of_int (i + 1) :: rat) \<le> of_int j" by (simp only: of_int_le_iff)
  then have le: "a + 1 \<le> p" by (simp add: a p)
  have ppos: "0 < p" using assms(3,4) by simp
  have "a / p \<le> (p - 1) / p" using le ppos by (simp add: divide_right_mono)
  also have "\<dots> = 1 - 1 / p" using ppos by (simp add: field_simps)
  also have "\<dots> \<le> 1 - 1 / 2 ^ 53"
    using ppos assms(5) by (simp add: frac_le)
  finally show "a / p \<le> 1 - 1 / 2 ^ 53" .
  show "0 \<le> a / p" using assms(3) ppos by simp
qed

section \<open>The binary64 embedding\<close>

subsection \<open>Keys, and the result in terms of the counts\<close>

lemma keys_dd_add_f64: "fst ` set (dd_add_f64 k x d) = insert k (fst ` set d)"
  using dom_update [of k "fl64 (dd_get d k + x)" d] by (simp add: dd_add_f64_def)

lemma cat_step_f64_keys:
  "fst ` set (agreement (cat_step_f64 row c st)) = insert c (fst ` set (agreement st))"
  by (simp add: cat_step_f64_def Let_def keys_dd_add_f64)

lemma fold_cat_step_f64_keys:
  "fst ` set (agreement (fold (cat_step_f64 row) cs st)) = set cs \<union> fst ` set (agreement st)"
  by (induction cs arbitrary: st) (auto simp: cat_step_f64_keys)

lemma row_step_f64_keys:
  "fst ` set (agreement (row_step_f64 row st)) = set row \<union> fst ` set (agreement st)"
  by (simp add: row_step_f64_def fold_cat_step_f64_keys)

lemma fold_row_step_f64_keys:
  "fst ` set (agreement (fold row_step_f64 data st)) =
     categories data \<union> fst ` set (agreement st)"
  by (induction data arbitrary: st) (auto simp: row_step_f64_keys categories_def)

lemma accumulate_f64_keys: "fst ` set (agreement (accumulate_f64 data)) = categories data"
  by (simp add: accumulate_f64_def fold_row_step_f64_keys)

lemma rates_f64_char:
  "rates_f64 cats st res =
     (if \<exists>c\<in>set cats. dd_get (potential st) c = 0 then Inl ZeroDivisionError
      else Inr (\<lambda>c. if c \<in> set cats
                     then Some (fl64 (dd_get (agreement st) c / dd_get (potential st) c))
                     else res c))"
  by (induction cats arbitrary: res) (auto simp: fun_eq_iff)

lemma rate_by_category_f64_char:
  "agreement_rate_by_category_f64 data =
     (if \<exists>c\<in>categories data. potential_count_f64 data c = 0 then Inl ZeroDivisionError
      else Inr (\<lambda>c. if c \<in> categories data
                     then Some (fl64 (agreement_count_f64 data c / potential_count_f64 data c))
                     else None))"
  unfolding agreement_rate_by_category_f64_def Let_def rates_f64_char
    agreement_count_f64_def potential_count_f64_def
  using accumulate_f64_keys [of data] by simp

lemma result_one_key:
  assumes "categories data = {a}" and "potential_count_f64 data a \<noteq> 0"
    and "fl64 (agreement_count_f64 data a / potential_count_f64 data a) = u"
  shows "agreement_rate_by_category_f64 data = Inr [a \<mapsto> u]"
  using assms by (auto simp: rate_by_category_f64_char fun_eq_iff)

lemma result_two_keys:
  assumes "categories data = {a, b}" and "a \<noteq> b"
    and "potential_count_f64 data a \<noteq> 0" and "potential_count_f64 data b \<noteq> 0"
    and "fl64 (agreement_count_f64 data a / potential_count_f64 data a) = u"
    and "fl64 (agreement_count_f64 data b / potential_count_f64 data b) = v"
  shows "agreement_rate_by_category_f64 data = Inr [a \<mapsto> u, b \<mapsto> v]"
  using assms by (auto simp: rate_by_category_f64_char fun_eq_iff)

subsection \<open>One step of each loop\<close>

lemma dd_get_add_f64:
  "dd_get (dd_add_f64 k x d) k' = (if k' = k then fl64 (dd_get d k + x) else dd_get d k')"
  by (simp add: dd_get_def dd_add_f64_def update_conv')

lemma cat_step_f64_agreement:
  "dd_get (agreement (cat_step_f64 row c st)) k =
     (if k = c then fl64 (dd_get (agreement st) k + row_agreement_f64 row k)
      else dd_get (agreement st) k)"
  by (simp add: cat_step_f64_def Let_def dd_get_add_f64 row_agreement_f64_def)

lemma cat_step_f64_potential:
  "dd_get (potential (cat_step_f64 row c st)) k =
     (if k = c then fl64 (dd_get (potential st) k + row_potential_f64 row k)
      else dd_get (potential st) k)"
  by (simp add: cat_step_f64_def Let_def dd_get_add_f64 row_potential_f64_def)

lemma fold_cat_step_f64_agreement:
  "distinct cs \<Longrightarrow>
   dd_get (agreement (fold (cat_step_f64 row) cs st)) k =
     (if k \<in> set cs then fl64 (dd_get (agreement st) k + row_agreement_f64 row k)
      else dd_get (agreement st) k)"
  by (induction cs arbitrary: st) (auto simp: cat_step_f64_agreement)

lemma fold_cat_step_f64_potential:
  "distinct cs \<Longrightarrow>
   dd_get (potential (fold (cat_step_f64 row) cs st)) k =
     (if k \<in> set cs then fl64 (dd_get (potential st) k + row_potential_f64 row k)
      else dd_get (potential st) k)"
  by (induction cs arbitrary: st) (auto simp: cat_step_f64_potential)

lemma row_step_f64_agreement:
  "dd_get (agreement (row_step_f64 row st)) k =
     (if k \<in> set row then fl64 (dd_get (agreement st) k + row_agreement_f64 row k)
      else dd_get (agreement st) k)"
  by (simp add: row_step_f64_def fold_cat_step_f64_agreement)

lemma row_step_f64_potential:
  "dd_get (potential (row_step_f64 row st)) k =
     (if k \<in> set row then fl64 (dd_get (potential st) k + row_potential_f64 row k)
      else dd_get (potential st) k)"
  by (simp add: row_step_f64_def fold_cat_step_f64_potential)

subsection \<open>The counts are integers and not negative\<close>

lemma choose2_succ_le:
  "choose2 (int (count_list row k) + 1) \<le> of_int (int (count_list row k) * int (length row))"
  using row_potential_nonneg [of row k] by (simp add: row_potential_def)

lemma choose2_f64_Ints_nonneg: "choose2_f64 (int n) \<in> \<int> \<and> 0 \<le> choose2_f64 (int n)"
  unfolding choose2_f64_def choose2_def [symmetric]
  using choose2_nonneg [of n] by (simp add: fl64_Ints fl64_nonneg choose2_Ints)

lemma row_agreement_f64_Ints_nonneg:
  "row_agreement_f64 row k \<in> \<int> \<and> 0 \<le> row_agreement_f64 row k"
  unfolding row_agreement_f64_def by (rule choose2_f64_Ints_nonneg)

lemma row_potential_f64_Ints_nonneg:
  "row_potential_f64 row k \<in> \<int> \<and> 0 \<le> row_potential_f64 row k"
proof -
  let ?A = "of_int (int (count_list row k) * int (length row)) :: rat"
  let ?c1 = "int (count_list row k) + 1"
  have c1: "?c1 = int (Suc (count_list row k))" by simp
  have B: "choose2_f64 ?c1 \<in> \<int>" "0 \<le> choose2_f64 ?c1"
    unfolding c1 using choose2_f64_Ints_nonneg [of "Suc (count_list row k)"] by simp_all
  have A0: "0 \<le> ?A" by simp
  have A: "fl64 ?A \<in> \<int>" using A0 by (intro fl64_Ints) simp_all
  have "0 \<le> choose2 ?c1" unfolding c1 by (rule choose2_nonneg)
  then have "fl64 (choose2 ?c1) \<le> fl64 ?A"
    using choose2_succ_le [of row k] by (intro fl64_mono)
  then have le: "choose2_f64 ?c1 \<le> fl64 ?A" by (simp add: choose2_f64_def choose2_def)
  have "fl64 ?A - choose2_f64 ?c1 \<in> \<int>" using A B(1) by (rule Ints_diff)
  moreover have "0 \<le> fl64 ?A - choose2_f64 ?c1" using le by simp
  ultimately show ?thesis
    unfolding row_potential_f64_def by (simp add: fl64_Ints fl64_nonneg)
qed

lemma fold_row_step_f64_Ints_nonneg:
  assumes "\<forall>k. dd_get (agreement st) k \<in> \<int> \<and> 0 \<le> dd_get (agreement st) k \<and>
               dd_get (potential st) k \<in> \<int> \<and> 0 \<le> dd_get (potential st) k"
  shows "dd_get (agreement (fold row_step_f64 data st)) k \<in> \<int> \<and>
         0 \<le> dd_get (agreement (fold row_step_f64 data st)) k \<and>
         dd_get (potential (fold row_step_f64 data st)) k \<in> \<int> \<and>
         0 \<le> dd_get (potential (fold row_step_f64 data st)) k"
  using assms
proof (induction data arbitrary: st)
  case Nil
  then show ?case by simp
next
  case (Cons row data)
  have "\<forall>k. dd_get (agreement (row_step_f64 row st)) k \<in> \<int> \<and>
            0 \<le> dd_get (agreement (row_step_f64 row st)) k \<and>
            dd_get (potential (row_step_f64 row st)) k \<in> \<int> \<and>
            0 \<le> dd_get (potential (row_step_f64 row st)) k"
  proof
    fix j
    have a: "dd_get (agreement st) j + row_agreement_f64 row j \<in> \<int>"
      "0 \<le> dd_get (agreement st) j + row_agreement_f64 row j"
      using Cons.prems row_agreement_f64_Ints_nonneg [of row j] by simp_all
    have p: "dd_get (potential st) j + row_potential_f64 row j \<in> \<int>"
      "0 \<le> dd_get (potential st) j + row_potential_f64 row j"
      using Cons.prems row_potential_f64_Ints_nonneg [of row j] by simp_all
    show "dd_get (agreement (row_step_f64 row st)) j \<in> \<int> \<and>
            0 \<le> dd_get (agreement (row_step_f64 row st)) j \<and>
            dd_get (potential (row_step_f64 row st)) j \<in> \<int> \<and>
            0 \<le> dd_get (potential (row_step_f64 row st)) j"
      using Cons.prems a p
      by (simp add: row_step_f64_agreement row_step_f64_potential fl64_Ints fl64_nonneg)
  qed
  then show ?case using Cons.IH by simp
qed

lemma counts_f64_Ints_nonneg:
  "agreement_count_f64 data k \<in> \<int> \<and> 0 \<le> agreement_count_f64 data k \<and>
   potential_count_f64 data k \<in> \<int> \<and> 0 \<le> potential_count_f64 data k"
  unfolding agreement_count_f64_def potential_count_f64_def accumulate_f64_def
  by (rule fold_row_step_f64_Ints_nonneg) (simp add: dd_get_Nil)

subsection \<open>The order of the labels within a row\<close>

lemma row_increments_mset:
  assumes "mset r = mset r'"
  shows "row_agreement_f64 r k = row_agreement_f64 r' k"
    and "row_potential_f64 r k = row_potential_f64 r' k"
    and "set r = set r'"
proof -
  have c: "count_list r k = count_list r' k"
    using assms by (metis count_mset)
  have l: "length r = length r'" using assms by (rule mset_eq_length)
  show "row_agreement_f64 r k = row_agreement_f64 r' k" by (simp add: row_agreement_f64_def c)
  show "row_potential_f64 r k = row_potential_f64 r' k" by (simp add: row_potential_f64_def c l)
  show "set r = set r'" using assms by (rule mset_eq_setD)
qed

lemma fold_row_step_f64_within_rows:
  assumes "map mset data = map mset data'"
    and "\<forall>k. dd_get (agreement st) k = dd_get (agreement st') k"
    and "\<forall>k. dd_get (potential st) k = dd_get (potential st') k"
  shows "dd_get (agreement (fold row_step_f64 data st)) k =
           dd_get (agreement (fold row_step_f64 data' st')) k \<and>
         dd_get (potential (fold row_step_f64 data st)) k =
           dd_get (potential (fold row_step_f64 data' st')) k"
  using assms
proof (induction data arbitrary: data' st st')
  case Nil
  then show ?case by simp
next
  case (Cons r data)
  from Cons.prems(1) obtain r' rest where d': "data' = r' # rest"
    and r: "mset r = mset r'" and rest: "map mset data = map mset rest"
    by (cases data') auto
  have "\<forall>k. dd_get (agreement (row_step_f64 r st)) k = dd_get (agreement (row_step_f64 r' st')) k"
    using Cons.prems(2) row_increments_mset [OF r]
    by (simp add: row_step_f64_agreement)
  moreover have "\<forall>k. dd_get (potential (row_step_f64 r st)) k = dd_get (potential (row_step_f64 r' st')) k"
    using Cons.prems(3) row_increments_mset [OF r]
    by (simp add: row_step_f64_potential)
  ultimately show ?case
    unfolding d' using Cons.IH [OF rest] by simp
qed

lemma categories_within_rows:
  assumes "map mset data = map mset data'"
  shows "categories data = categories data'"
proof -
  have "categories rows = \<Union> (set_mset ` set (map mset rows))" for rows :: "'a list list"
    by (simp add: categories_def)
  then show ?thesis by (simp only: assms)
qed

lemma rate_f64_within_rows:
  assumes "map mset data = map mset data'"
  shows "agreement_rate_by_category_f64 data = agreement_rate_by_category_f64 data'"
proof -
  have "agreement_count_f64 data k = agreement_count_f64 data' k \<and>
        potential_count_f64 data k = potential_count_f64 data' k" for k
    unfolding agreement_count_f64_def potential_count_f64_def accumulate_f64_def
    using assms by (intro fold_row_step_f64_within_rows) simp_all
  then have "agreement_count_f64 data = agreement_count_f64 data'"
    and "potential_count_f64 data = potential_count_f64 data'"
    by (simp_all add: fun_eq_iff)
  then show ?thesis
    by (simp only: rate_by_category_f64_char categories_within_rows [OF assms])
qed

subsection \<open>Agreement with the exact embedding\<close>

text \<open>
  Within the exact range every rounding of the loops returns its argument, so the two
  embeddings build the same accumulators; the rates are the rounded exact rates.
\<close>

lemma row_potential_le_square:
  "row_potential row k \<le> of_int (int (length row) * int (length row))"
proof -
  have "count_list row k \<le> length row" by (rule count_le_length)
  then have "int (count_list row k) * int (length row) \<le> int (length row) * int (length row)"
    by (simp add: mult_right_mono)
  then have "(of_int (int (count_list row k) * int (length row)) :: rat)
               \<le> of_int (int (length row) * int (length row))"
    by (simp only: of_int_le_iff)
  moreover have "0 \<le> choose2 (int (count_list row k) + 1)"
    using choose2_nonneg [of "Suc (count_list row k)"] by (simp add: add.commute)
  ultimately show ?thesis by (simp add: row_potential_def)
qed

lemma potential_count_le_range:
  "potential_count data k \<le> of_int (\<Sum>row\<leftarrow>data. int (length row) * int (length row))"
proof -
  have "(\<Sum>row\<leftarrow>data. row_potential row k)
          \<le> (\<Sum>row\<leftarrow>data. of_int (int (length row) * int (length row)))"
    by (rule sum_list_mono) (rule row_potential_le_square)
  also have "\<dots> = of_int (\<Sum>row\<leftarrow>data. int (length row) * int (length row))"
    by (induction data) simp_all
  finally show ?thesis by (simp only: potential_count_sum)
qed

lemma cat_step_f64_exact:
  assumes "small_entry st B k" and "B + int (length row) * int (length row) \<le> 2 ^ 53"
  shows "cat_step_f64 row k st = cat_step row k st"
proof -
  let ?c = "int (count_list row k)"
  let ?L2 = "of_int (int (length row) * int (length row)) :: rat"
  have B: "(of_int B :: rat) + ?L2 \<le> 2 ^ 53"
  proof -
    have "(of_int (B + int (length row) * int (length row)) :: rat) \<le> of_int (2 ^ 53)"
      using assms(2) by (simp only: of_int_le_iff)
    then show ?thesis by simp
  qed
  have B0: "0 \<le> (of_int B :: rat)" using assms(1) by (simp add: small_entry_def)
  have L2: "?L2 \<le> 2 ^ 53" using B B0 by linarith
  have pot: "row_potential row k \<le> ?L2" by (rule row_potential_le_square)
  have agr: "row_agreement row k \<le> ?L2"
    using row_agreement_le_potential [of row k] pot by simp
  have c1: "choose2_f64 ?c = choose2 ?c"
    unfolding choose2_f64_def choose2_def [symmetric]
    using agr row_agreement_nonneg [of row k] L2
    by (intro fl64_Ints_exact choose2_Ints) (simp_all add: row_agreement_def)
  have cl: "of_int (?c * int (length row)) \<le> ?L2"
    using pot row_potential_split [of row k] count_le_length [of row k]
    by (simp only: of_int_le_iff) (simp add: mult_right_mono)
  have c2: "fl64 (of_int (?c * int (length row))) = of_int (?c * int (length row))"
    using cl L2 by (intro fl64_Ints_exact) simp_all
  have c3: "choose2_f64 (?c + 1) = choose2 (?c + 1)"
    unfolding choose2_f64_def choose2_def [symmetric]
    using choose2_succ_le [of row k] cl L2 choose2_nonneg [of "Suc (count_list row k)"]
    by (intro fl64_Ints_exact choose2_Ints) (simp_all add: add.commute)
  have c4: "fl64 (row_potential row k) = row_potential row k"
    using pot L2 row_potential_nonneg [of row k]
    by (intro fl64_Ints_exact row_potential_Ints) simp_all
  have c5: "fl64 (dd_get (agreement st) k + row_agreement row k)
              = dd_get (agreement st) k + row_agreement row k"
    using assms(1) agr B row_agreement_nonneg [of row k]
    by (intro fl64_Ints_exact) (simp_all add: small_entry_def row_agreement_Ints)
  have c6: "fl64 (dd_get (potential st) k + row_potential row k)
              = dd_get (potential st) k + row_potential row k"
    using assms(1) pot B row_potential_nonneg [of row k]
    by (intro fl64_Ints_exact) (simp_all add: small_entry_def row_potential_Ints)
  show ?thesis
    unfolding cat_step_f64_def cat_step_def Let_def dd_add_f64_def dd_add_def c1 c2 c3
    unfolding c4 [unfolded row_potential_def] c5 [unfolded row_agreement_def]
      c6 [unfolded row_potential_def]
    by (rule refl)
qed

lemma small_entry_cat_step_other:
  "k \<noteq> c \<Longrightarrow> small_entry (cat_step row c st) B k = small_entry st B k"
  by (simp add: small_entry_def cat_step_agreement cat_step_potential)

lemma fold_cat_step_f64_exact:
  assumes "distinct cs" and "\<forall>k\<in>set cs. small_entry st B k"
    and "B + int (length row) * int (length row) \<le> 2 ^ 53"
  shows "fold (cat_step_f64 row) cs st = fold (cat_step row) cs st"
  using assms(1,2)
proof (induction cs arbitrary: st)
  case Nil
  then show ?case by simp
next
  case (Cons c cs)
  have step: "cat_step_f64 row c st = cat_step row c st"
    using Cons.prems(2) assms(3) by (intro cat_step_f64_exact [where B = B]) simp_all
  have "\<forall>k\<in>set cs. small_entry (cat_step row c st) B k"
  proof
    fix k assume k: "k \<in> set cs"
    then have "k \<noteq> c" using Cons.prems(1) by auto
    then show "small_entry (cat_step row c st) B k"
      using Cons.prems(2) k by (simp add: small_entry_cat_step_other)
  qed
  then have "fold (cat_step_f64 row) cs (cat_step row c st) = fold (cat_step row) cs (cat_step row c st)"
    using Cons.prems(1) by (intro Cons.IH) simp_all
  then show ?case by (simp add: step)
qed

lemma row_step_f64_exact:
  assumes "\<forall>k. small_entry st B k" and "B + int (length row) * int (length row) \<le> 2 ^ 53"
  shows "row_step_f64 row st = row_step row st"
  unfolding row_step_f64_def row_step_def
  using assms by (intro fold_cat_step_f64_exact [where B = B]) simp_all

lemma small_entry_row_step:
  assumes "small_entry st B k"
  shows "small_entry (row_step row st) (B + int (length row) * int (length row)) k"
proof -
  have pot: "row_potential row k \<le> of_int (int (length row) * int (length row))"
    by (rule row_potential_le_square)
  have agr: "row_agreement row k \<le> of_int (int (length row) * int (length row))"
    using row_agreement_le_potential [of row k] pot by simp
  show ?thesis
    using assms pot agr row_agreement_nonneg [of row k] row_potential_nonneg [of row k]
    unfolding small_entry_def row_step_agreement row_step_potential
    by (simp add: row_agreement_Ints row_potential_Ints)
qed

lemma fold_row_step_f64_exact:
  assumes "\<forall>k. small_entry st B k"
    and "B + (\<Sum>row\<leftarrow>data. int (length row) * int (length row)) \<le> 2 ^ 53"
  shows "fold row_step_f64 data st = fold row_step data st"
  using assms
proof (induction data arbitrary: st B)
  case Nil
  then show ?case by simp
next
  case (Cons row data)
  let ?L2 = "int (length row) * int (length row)"
  have rest: "0 \<le> (\<Sum>r\<leftarrow>data. int (length r) * int (length r))"
    by (rule sum_list_nonneg) auto
  have step: "row_step_f64 row st = row_step row st"
    using Cons.prems rest by (intro row_step_f64_exact [where B = B]) simp_all
  have "\<forall>k. small_entry (row_step row st) (B + ?L2) k"
    using Cons.prems(1) by (simp add: small_entry_row_step)
  moreover have "(B + ?L2) + (\<Sum>r\<leftarrow>data. int (length r) * int (length r)) \<le> 2 ^ 53"
    using Cons.prems(2) by simp
  ultimately have "fold row_step_f64 data (row_step row st) = fold row_step data (row_step row st)"
    by (rule Cons.IH)
  then show ?case by (simp add: step)
qed

lemma accumulate_f64_exact: "exact_range data \<Longrightarrow> accumulate_f64 data = accumulate data"
  unfolding accumulate_f64_def accumulate_def exact_range_def
  by (intro fold_row_step_f64_exact [where B = 0]) (simp_all add: small_entry_def dd_get_Nil)

lemma rate_by_category_f64_exact:
  assumes "exact_range data"
  shows "agreement_rate_by_category_f64 data =
     (if \<exists>c\<in>categories data. potential_count data c = 0 then Inl ZeroDivisionError
      else Inr (\<lambda>c. if c \<in> categories data
                     then Some (fl64 (agreement_count data c / potential_count data c))
                     else None))"
  unfolding agreement_rate_by_category_f64_def Let_def rates_f64_char
    accumulate_f64_exact [OF assms] agreement_count_def potential_count_def
  using accumulate_keys [of data] by simp

lemma counts_f64_exact:
  assumes "exact_range data"
  shows "agreement_count_f64 data k = agreement_count data k"
    and "potential_count_f64 data k = potential_count data k"
  by (simp_all add: agreement_count_f64_def potential_count_f64_def agreement_count_def
      potential_count_def accumulate_f64_exact [OF assms])

lemma sum_list_rows_mset_int:
  assumes "mset (map mset data) = mset (map mset data')"
  shows "(\<Sum>row\<leftarrow>data. g (mset row) :: int) = (\<Sum>row\<leftarrow>data'. g (mset row))"
proof -
  have "(\<Sum>row\<leftarrow>rows. g (mset row)) = sum_mset (image_mset g (mset (map mset rows)))"
    for rows :: "'a list list"
  proof -
    have "(\<Sum>row\<leftarrow>rows. g (mset row)) = sum_list (map g (map mset rows))"
      by (simp add: comp_def)
    also have "\<dots> = sum_mset (mset (map g (map mset rows)))"
      by (simp only: sum_mset_sum_list)
    finally show ?thesis by (simp only: mset_map)
  qed
  then show ?thesis by (simp only: assms)
qed

lemma exact_range_mset:
  assumes "mset (map mset data) = mset (map mset data')"
  shows "exact_range data = exact_range data'"
proof -
  have "(\<Sum>row\<leftarrow>data. int (size (mset row)) * int (size (mset row)))
          = (\<Sum>row\<leftarrow>data'. int (size (mset row)) * int (size (mset row)))"
    using assms by (rule sum_list_rows_mset_int [where g = "\<lambda>M. int (size M) * int (size M)"])
  then show ?thesis by (simp add: exact_range_def)
qed

section \<open>Runs of the binary64 embedding\<close>

text \<open>
  A row of \<open>n\<close> equal labels is not unfolded: its one step is computed from \<open>n\<close>.
  The runs below are then evaluated row by row.
\<close>

lemma count_list_replicate: "count_list (replicate n x) y = (if x = y then n else 0)"
  by (induction n) auto

lemma remdups_replicate: "0 < n \<Longrightarrow> remdups (replicate n x) = [x]"
proof (induction n)
  case 0
  then show ?case by simp
next
  case (Suc n)
  then show ?case by (cases n) auto
qed

lemma row_step_f64_replicate:
  assumes "0 < n"
  shows "row_step_f64 (replicate n x) st =
     \<lparr> agreement = dd_add_f64 x (choose2_f64 (int n)) (agreement st),
       potential = dd_add_f64 x
                     (fl64 (fl64 (of_int (int n * int n)) - choose2_f64 (int n + 1)))
                     (potential st) \<rparr>"
  by (simp add: row_step_f64_def remdups_replicate [OF assms] cat_step_f64_def Let_def
      count_list_replicate)

lemma row_step_f64_94906267:
  "row_step_f64 (replicate 94906267 x) st =
     \<lparr> agreement = dd_add_f64 x (choose2_f64 94906267) (agreement st),
       potential = dd_add_f64 x
                     (fl64 (fl64 (of_int (94906267 * 94906267)) - choose2_f64 (94906267 + 1)))
                     (potential st) \<rparr>"
  using row_step_f64_replicate [of 94906267 x st] by simp

lemma row_step_f64_134217729:
  "row_step_f64 (replicate 134217729 x) st =
     \<lparr> agreement = dd_add_f64 x (choose2_f64 134217729) (agreement st),
       potential = dd_add_f64 x
                     (fl64 (fl64 (of_int (134217729 * 134217729)) - choose2_f64 (134217729 + 1)))
                     (potential st) \<rparr>"
  using row_step_f64_replicate [of 134217729 x st] by simp

text \<open>The dataset of one row of 94906267 labels \<open>0\<close>.\<close>

lemma unanimous_state:
  "accumulate_f64 [replicate 94906267 (0::int)] =
     \<lparr>agreement = [(0, 4503599710484511)], potential = [(0, 4503599710484510)]\<rparr>"
  unfolding accumulate_f64_def fold_simps row_step_f64_94906267 by code_simp

lemma unanimous_counts:
  "agreement_count_f64 [replicate 94906267 (0::int)] 0 = 4503599710484511"
  "potential_count_f64 [replicate 94906267 (0::int)] 0 = 4503599710484510"
  by (simp_all add: agreement_count_f64_def potential_count_f64_def unanimous_state dd_get_def)

lemma unanimous_categories: "categories [replicate 94906267 (0::int)] = {0}"
  by (auto simp: categories_def)

lemma fl64_quotients:
  "fl64 (4503599710484511 / 4503599710484510) = 4503599627370497 / 4503599627370496"
  "fl64 (9007199321849856 / 9007199321849858) = 4503599627370495 / 4503599627370496"
  "fl64 (1 / 3) = 6004799503160661 / 18014398509481984"
  by code_simp+

lemma unanimous_result:
  "agreement_rate_by_category_f64 [replicate 94906267 (0::int)] =
     Inr [0 \<mapsto> 4503599627370497 / 4503599627370496]"
proof -
  have p: "potential_count_f64 [replicate 94906267 (0::int)] 0 \<noteq> 0"
    by (simp add: unanimous_counts)
  have r: "fl64 (agreement_count_f64 [replicate 94906267 (0::int)] 0 / potential_count_f64 [replicate 94906267 (0::int)] 0)
             = 4503599627370497 / 4503599627370496"
    unfolding unanimous_counts by (rule fl64_quotients(1))
  show ?thesis by (rule result_one_key [OF unanimous_categories p r])
qed

lemma unanimous_spec_rate: "spec_rate [replicate 94906267 (0::int)] 0 = 1"
  by (simp add: spec_rate_eq agreement_count_sum potential_count_sum row_agreement_def
      row_potential_def count_list_replicate choose2_def)

text \<open>A row of 134217729 labels \<open>0\<close>, followed by rows \<open>[0, 1]\<close>.\<close>

lemma long_first_step1:
  "row_step_f64 (replicate 134217729 (0::int)) \<lparr>agreement = [], potential = []\<rparr> =
     \<lparr>agreement = [(0, 9007199321849856)], potential = [(0, 9007199321849856)]\<rparr>"
  unfolding row_step_f64_134217729 by code_simp

lemma long_first_step2:
  "row_step_f64 [0, 1]
     \<lparr>agreement = [(0::int, 9007199321849856)], potential = [(0, 9007199321849856)]\<rparr> =
     \<lparr>agreement = [(0, 9007199321849856), (1, 0)],
      potential = [(0, 9007199321849856), (1, 1)]\<rparr>"
  by code_simp

lemma long_first_step3:
  "row_step_f64 [0, 1]
     \<lparr>agreement = [(0::int, 9007199321849856), (1, 0)],
      potential = [(0, 9007199321849856), (1, 1)]\<rparr> =
     \<lparr>agreement = [(0, 9007199321849856), (1, 0)],
      potential = [(0, 9007199321849856), (1, 2)]\<rparr>"
  by code_simp

lemma absorbed_state:
  "accumulate_f64 [replicate 134217729 (0::int), [0, 1]] =
     \<lparr>agreement = [(0, 9007199321849856), (1, 0)],
      potential = [(0, 9007199321849856), (1, 1)]\<rparr>"
  unfolding accumulate_f64_def fold_simps long_first_step1 long_first_step2 by (rule refl)

lemma absorbed_counts:
  "agreement_count_f64 [replicate 134217729 (0::int), [0, 1]] 0 = 9007199321849856"
  "potential_count_f64 [replicate 134217729 (0::int), [0, 1]] 0 = 9007199321849856"
  "agreement_count_f64 [replicate 134217729 (0::int), [0, 1]] 1 = 0"
  "potential_count_f64 [replicate 134217729 (0::int), [0, 1]] 1 = 1"
  by (simp_all add: agreement_count_f64_def potential_count_f64_def absorbed_state dd_get_def)

lemma absorbed_categories: "categories [replicate 134217729 (0::int), [0, 1]] = {0, 1}"
  by (auto simp: categories_def)

lemma absorbed_result:
  "agreement_rate_by_category_f64 [replicate 134217729 (0::int), [0, 1]] = Inr [0 \<mapsto> 1, 1 \<mapsto> 0]"
proof -
  have ne: "(0::int) \<noteq> 1" by simp
  have p0: "potential_count_f64 [replicate 134217729 (0::int), [0, 1]] 0 \<noteq> 0"
    and p1: "potential_count_f64 [replicate 134217729 (0::int), [0, 1]] 1 \<noteq> 0"
    by (simp_all add: absorbed_counts)
  have r0: "fl64 (agreement_count_f64 [replicate 134217729 (0::int), [0, 1]] 0 / potential_count_f64 [replicate 134217729 (0::int), [0, 1]] 0) = 1"
    unfolding absorbed_counts by (simp add: fl64_one)
  have r1: "fl64 (agreement_count_f64 [replicate 134217729 (0::int), [0, 1]] 1 / potential_count_f64 [replicate 134217729 (0::int), [0, 1]] 1) = 0"
    unfolding absorbed_counts by (simp add: fl64_zero)
  show ?thesis by (rule result_two_keys [OF absorbed_categories ne p0 p1 r0 r1])
qed

lemma long_first_state:
  "accumulate_f64 [replicate 134217729 (0::int), [0, 1], [0, 1]] =
     \<lparr>agreement = [(0, 9007199321849856), (1, 0)],
      potential = [(0, 9007199321849856), (1, 2)]\<rparr>"
  unfolding accumulate_f64_def fold_simps long_first_step1 long_first_step2 long_first_step3 by (rule refl)

lemma long_first_counts:
  "agreement_count_f64 [replicate 134217729 (0::int), [0, 1], [0, 1]] 0 = 9007199321849856"
  "potential_count_f64 [replicate 134217729 (0::int), [0, 1], [0, 1]] 0 = 9007199321849856"
  "agreement_count_f64 [replicate 134217729 (0::int), [0, 1], [0, 1]] 1 = 0"
  "potential_count_f64 [replicate 134217729 (0::int), [0, 1], [0, 1]] 1 = 2"
  by (simp_all add: agreement_count_f64_def potential_count_f64_def long_first_state dd_get_def)

lemma long_first_categories: "categories [replicate 134217729 (0::int), [0, 1], [0, 1]] = {0, 1}"
  by (auto simp: categories_def)

lemma long_first_result:
  "agreement_rate_by_category_f64 [replicate 134217729 (0::int), [0, 1], [0, 1]] = Inr [0 \<mapsto> 1, 1 \<mapsto> 0]"
proof -
  have ne: "(0::int) \<noteq> 1" by simp
  have p0: "potential_count_f64 [replicate 134217729 (0::int), [0, 1], [0, 1]] 0 \<noteq> 0"
    and p1: "potential_count_f64 [replicate 134217729 (0::int), [0, 1], [0, 1]] 1 \<noteq> 0"
    by (simp_all add: long_first_counts)
  have r0: "fl64 (agreement_count_f64 [replicate 134217729 (0::int), [0, 1], [0, 1]] 0 / potential_count_f64 [replicate 134217729 (0::int), [0, 1], [0, 1]] 0) = 1"
    unfolding long_first_counts by (simp add: fl64_one)
  have r1: "fl64 (agreement_count_f64 [replicate 134217729 (0::int), [0, 1], [0, 1]] 1 / potential_count_f64 [replicate 134217729 (0::int), [0, 1], [0, 1]] 1) = 0"
    unfolding long_first_counts by (simp add: fl64_zero)
  show ?thesis by (rule result_two_keys [OF long_first_categories ne p0 p1 r0 r1])
qed

text \<open>The same rows with the long row last.\<close>

lemma long_last_step1:
  "row_step_f64 [0, 1] \<lparr>agreement = [], potential = []\<rparr> =
     \<lparr>agreement = [(0::int, 0), (1, 0)], potential = [(0, 1), (1, 1)]\<rparr>"
  by code_simp

lemma long_last_step2:
  "row_step_f64 [0, 1] \<lparr>agreement = [(0::int, 0), (1, 0)], potential = [(0, 1), (1, 1)]\<rparr> =
     \<lparr>agreement = [(0, 0), (1, 0)], potential = [(0, 2), (1, 2)]\<rparr>"
  by code_simp

lemma long_last_step3:
  "row_step_f64 (replicate 134217729 (0::int))
     \<lparr>agreement = [(0, 0), (1, 0)], potential = [(0, 2), (1, 2)]\<rparr> =
     \<lparr>agreement = [(0, 9007199321849856), (1, 0)],
      potential = [(0, 9007199321849858), (1, 2)]\<rparr>"
  unfolding row_step_f64_134217729 by code_simp

lemma long_last_state:
  "accumulate_f64 [[0, 1], [0, 1], replicate 134217729 (0::int)] =
     \<lparr>agreement = [(0, 9007199321849856), (1, 0)],
      potential = [(0, 9007199321849858), (1, 2)]\<rparr>"
  unfolding accumulate_f64_def fold_simps long_last_step1 long_last_step2 long_last_step3 by (rule refl)

lemma long_last_counts:
  "agreement_count_f64 [[0, 1], [0, 1], replicate 134217729 (0::int)] 0 = 9007199321849856"
  "potential_count_f64 [[0, 1], [0, 1], replicate 134217729 (0::int)] 0 = 9007199321849858"
  "agreement_count_f64 [[0, 1], [0, 1], replicate 134217729 (0::int)] 1 = 0"
  "potential_count_f64 [[0, 1], [0, 1], replicate 134217729 (0::int)] 1 = 2"
  by (simp_all add: agreement_count_f64_def potential_count_f64_def long_last_state dd_get_def)

lemma long_last_categories: "categories [[0, 1], [0, 1], replicate 134217729 (0::int)] = {0, 1}"
  by (auto simp: categories_def)

lemma long_last_result:
  "agreement_rate_by_category_f64 [[0, 1], [0, 1], replicate 134217729 (0::int)] = Inr [0 \<mapsto> 4503599627370495 / 4503599627370496, 1 \<mapsto> 0]"
proof -
  have ne: "(0::int) \<noteq> 1" by simp
  have p0: "potential_count_f64 [[0, 1], [0, 1], replicate 134217729 (0::int)] 0 \<noteq> 0"
    and p1: "potential_count_f64 [[0, 1], [0, 1], replicate 134217729 (0::int)] 1 \<noteq> 0"
    by (simp_all add: long_last_counts)
  have r0: "fl64 (agreement_count_f64 [[0, 1], [0, 1], replicate 134217729 (0::int)] 0 / potential_count_f64 [[0, 1], [0, 1], replicate 134217729 (0::int)] 0) = 4503599627370495 / 4503599627370496"
    unfolding long_last_counts by (rule fl64_quotients(2))
  have r1: "fl64 (agreement_count_f64 [[0, 1], [0, 1], replicate 134217729 (0::int)] 1 / potential_count_f64 [[0, 1], [0, 1], replicate 134217729 (0::int)] 1) = 0"
    unfolding long_last_counts by (simp add: fl64_zero)
  show ?thesis by (rule result_two_keys [OF long_last_categories ne p0 p1 r0 r1])
qed

text \<open>The dataset \<open>[[0, 0, 1]]\<close>.\<close>

lemma small_exact: "exact_range [[0::int, 0, 1]]"
  by (simp add: exact_range_def)

lemma small_counts:
  "agreement_count_f64 [[0::int, 0, 1]] 0 = 1"
  "potential_count_f64 [[0::int, 0, 1]] 0 = 3"
  "agreement_count_f64 [[0::int, 0, 1]] 1 = 0"
  "potential_count_f64 [[0::int, 0, 1]] 1 = 2"
  by (simp_all add: counts_f64_exact [OF small_exact] run_defs)

lemma small_categories: "categories [[0::int, 0, 1]] = {0, 1}"
  by (auto simp: categories_def)

lemma small_result:
  "agreement_rate_by_category_f64 [[0::int, 0, 1]] =
     Inr [0 \<mapsto> 6004799503160661 / 18014398509481984, 1 \<mapsto> 0]"
proof -
  have ne: "(0::int) \<noteq> 1" by simp
  have p0: "potential_count_f64 [[0::int, 0, 1]] 0 \<noteq> 0"
    and p1: "potential_count_f64 [[0::int, 0, 1]] 1 \<noteq> 0"
    by (simp_all add: small_counts)
  have r0: "fl64 (agreement_count_f64 [[0::int, 0, 1]] 0 / potential_count_f64 [[0::int, 0, 1]] 0)
              = 6004799503160661 / 18014398509481984"
    unfolding small_counts by (rule fl64_quotients(3))
  have r1: "fl64 (agreement_count_f64 [[0::int, 0, 1]] 1 / potential_count_f64 [[0::int, 0, 1]] 1) = 0"
    unfolding small_counts by (simp add: fl64_zero)
  show ?thesis by (rule result_two_keys [OF small_categories ne p0 p1 r0 r1])
qed

section \<open>Zero denominators, keys and the repeated row in binary64\<close>

text \<open>
  Some statements do not depend on rounding: a potential is zero in binary64 exactly when
  it is zero in exact arithmetic, and the keys are the same. They are proved here of the
  binary64 embedding. The rounding error of \<open>fl64\<close> is at most \<open>2^-53\<close> of its
  argument, and in a row of length at least 2 the product \<open>count * len(row)\<close> is at
  least \<open>4/3\<close> of \<open>choose2(count + 1)\<close>, so the difference of the two rounded numbers
  stays positive.
\<close>

lemma rne_error: "\<bar>of_int (rne y) - y\<bar> \<le> 1 / 2"
proof -
  define d where "d = y - of_int \<lfloor>y\<rfloor>"
  have d: "0 \<le> d" "d < 1" unfolding d_def by linarith+
  consider "d < 1 / 2" | "1 / 2 < d" | "d = 1 / 2" by linarith
  then show ?thesis
  proof cases
    case 1
    then have "rne y = \<lfloor>y\<rfloor>" by (simp add: rne_def Let_def d_def)
    then show ?thesis using 1 d unfolding d_def by linarith
  next
    case 2
    then have "rne y = \<lfloor>y\<rfloor> + 1" by (simp add: rne_def Let_def d_def)
    then show ?thesis using 2 d unfolding d_def by linarith
  next
    case 3
    then have "rne y = \<lfloor>y\<rfloor> \<or> rne y = \<lfloor>y\<rfloor> + 1"
      by (simp add: rne_def Let_def d_def)
    then show ?thesis using 3 d unfolding d_def by linarith
  qed
qed

lemma fl64_error:
  assumes "0 < x"
  shows "\<bar>fl64 x - x\<bar> \<le> x / 2 ^ 53"
proof -
  let ?e = "ilog2 x - 52"
  let ?m = "x / 2 powi ?e"
  have x: "x = ?m * 2 powi ?e" by simp
  have "fl64 x - x = (of_int (rne ?m) - ?m) * 2 powi ?e"
    by (simp add: fl64_pos_eq [OF assms] algebra_simps)
  then have "\<bar>fl64 x - x\<bar> = \<bar>of_int (rne ?m) - ?m\<bar> * 2 powi ?e"
    by (simp add: abs_mult)
  also have "\<dots> \<le> 1 / 2 * 2 powi ?e"
    using rne_error [of ?m] by (intro mult_right_mono) simp_all
  also have "\<dots> = 2 powi (ilog2 x) / 2 ^ 53"
  proof -
    have "(2::rat) powi ?e = 2 powi (ilog2 x) / 2 powi 52"
      by (subst power_int_diff [symmetric]) simp_all
    then show ?thesis by simp
  qed
  also have "\<dots> \<le> x / 2 ^ 53"
    using ilog2_bounds(1) [OF assms] by (simp add: divide_right_mono)
  finally show ?thesis .
qed

lemma fl64_pos: "0 < x \<Longrightarrow> 0 < fl64 x"
proof -
  assume x: "0 < x"
  have "(0::rat) < 2 powi (ilog2 x)" by simp
  then show ?thesis using fl64_lower [OF x] by linarith
qed

lemma row_potential_f64_pos:
  assumes "k \<in> set row" and "2 \<le> length row"
  shows "0 < row_potential_f64 row k"
proof -
  let ?c = "count_list row k" and ?L = "length row"
  let ?A = "of_int (int ?c * int ?L) :: rat"
  let ?B = "choose2 (int ?c + 1)"
  have c: "1 \<le> ?c" using assms(1) count_list_0_iff [of row k] by (cases "?c") auto
  have cL: "?c \<le> ?L" by (rule count_le_length)
  have B: "?B = of_nat ?c * (of_nat ?c + 1) / 2" by (simp add: choose2_def algebra_simps)
  have A: "?A = of_nat ?c * of_nat ?L" by simp
  have c1: "(1::rat) \<le> of_nat ?c" using c by (metis of_nat_1 of_nat_le_iff)
  have B1: "1 \<le> ?B"
  proof -
    have "(1::rat) * (1 + 1) \<le> of_nat ?c * (of_nat ?c + 1)"
      using c1 by (intro mult_mono) simp_all
    then show ?thesis by (simp add: B)
  qed
  have "2 * ?c + 2 \<le> 3 * ?L" using cL assms(2) by simp
  then have "(of_nat (2 * ?c + 2) :: rat) \<le> of_nat (3 * ?L)" by (simp only: of_nat_le_iff)
  then have "2 * (of_nat ?c + 1) \<le> 3 * (of_nat ?L :: rat)" by simp
  then have "of_nat ?c * (2 * (of_nat ?c + 1)) \<le> of_nat ?c * (3 * (of_nat ?L :: rat))"
    by (intro mult_left_mono) simp_all
  then have AB: "4 * ?B \<le> 3 * ?A" unfolding A B by (simp add: algebra_simps)
  have Apos: "0 < ?A" using B1 AB by linarith
  have Bpos: "0 < ?B" using B1 by linarith
  have eA: "- (fl64 ?A - ?A) \<le> ?A / 2 ^ 53"
    using fl64_error [OF Apos] by (rule abs_le_D2)
  have eB: "fl64 ?B - ?B \<le> ?B / 2 ^ 53"
    using fl64_error [OF Bpos] by (rule abs_le_D1)
  have "0 < fl64 ?A - fl64 ?B"
  proof -
    define a where "a = ?A"
    define b where "b = ?B"
    define fa where "fa = fl64 ?A"
    define fb where "fb = fl64 ?B"
    have "- (fa - a) \<le> a / 9007199254740992" "fb - b \<le> b / 9007199254740992"
      "4 * b \<le> 3 * a" "1 \<le> b"
      using eA eB AB B1 by (simp_all add: a_def b_def fa_def fb_def)
    then have "0 < fa - fb" by linarith
    then show ?thesis by (simp only: fa_def fb_def)
  qed
  then have "0 < fl64 (fl64 ?A - fl64 ?B)" by (rule fl64_pos)
  then show ?thesis by (simp add: row_potential_f64_def choose2_f64_def choose2_def)
qed

lemma row_step_f64_nonneg:
  assumes "0 \<le> dd_get (potential st) k"
  shows "0 \<le> dd_get (potential (row_step_f64 row st)) k"
  using assms row_potential_f64_Ints_nonneg [of row k]
  by (simp add: row_step_f64_potential fl64_nonneg)

lemma row_step_f64_keeps_pos:
  assumes "0 < dd_get (potential st) k"
  shows "0 < dd_get (potential (row_step_f64 row st)) k"
  using assms row_potential_f64_Ints_nonneg [of row k]
  by (simp add: row_step_f64_potential fl64_pos)

lemma fold_row_step_f64_keeps_pos:
  "0 < dd_get (potential st) k \<Longrightarrow> 0 < dd_get (potential (fold row_step_f64 data st)) k"
  by (induction data arbitrary: st) (simp_all add: row_step_f64_keeps_pos)

lemma fold_row_step_f64_pos:
  assumes "row \<in> set data" and "k \<in> set row" and "2 \<le> length row"
    and "0 \<le> dd_get (potential st) k"
  shows "0 < dd_get (potential (fold row_step_f64 data st)) k"
  using assms(1,4)
proof (induction data arbitrary: st)
  case Nil
  then show ?case by simp
next
  case (Cons r data)
  show ?case
  proof (cases "r = row")
    case True
    have "0 < dd_get (potential st) k + row_potential_f64 row k"
      using Cons.prems(2) row_potential_f64_pos [OF assms(2,3)] by simp
    then have "0 < dd_get (potential (row_step_f64 row st)) k"
      using assms(2) by (simp add: row_step_f64_potential fl64_pos)
    then show ?thesis by (simp add: True fold_row_step_f64_keeps_pos)
  next
    case False
    then have "row \<in> set data" using Cons.prems(1) by simp
    moreover have "0 \<le> dd_get (potential (row_step_f64 r st)) k"
      using Cons.prems(2) by (rule row_step_f64_nonneg)
    ultimately show ?thesis using Cons.IH by simp
  qed
qed

lemma potential_count_f64_pos:
  "row \<in> set data \<Longrightarrow> k \<in> set row \<Longrightarrow> 2 \<le> length row \<Longrightarrow> 0 < potential_count_f64 data k"
  unfolding potential_count_f64_def accumulate_f64_def
  by (rule fold_row_step_f64_pos) (simp_all add: dd_get_Nil)

lemma rate_by_category_f64_returns:
  assumes "\<forall>c\<in>categories data. \<exists>row\<in>set data. c \<in> set row \<and> 2 \<le> length row"
  shows "\<exists>m. agreement_rate_by_category_f64 data = Inr m"
proof -
  have "potential_count_f64 data c \<noteq> 0" if "c \<in> categories data" for c
  proof -
    from assms that obtain row where "row \<in> set data" "c \<in> set row" "2 \<le> length row"
      by blast
    then have "0 < potential_count_f64 data c" by (rule potential_count_f64_pos)
    then show ?thesis by simp
  qed
  then show ?thesis by (simp add: rate_by_category_f64_char)
qed

lemma row_potential_f64_singleton:
  assumes "length row = 1"
  shows "row_potential_f64 row k = 0"
proof -
  have "count_list row k \<le> 1" using count_le_length [of row k] assms by simp
  then have c: "count_list row k = 0 \<or> count_list row k = 1" by auto
  have z: "choose2_f64 1 = 0" "choose2_f64 2 = 1"
    by (simp_all add: choose2_f64_def fl64_zero fl64_one)
  from c show ?thesis
    using assms by (auto simp: row_potential_f64_def z fl64_zero fl64_one)
qed

lemma fold_row_step_f64_singletons:
  assumes "\<forall>row\<in>set data. length row = 1" and "dd_get (potential st) k = 0"
  shows "dd_get (potential (fold row_step_f64 data st)) k = 0"
  using assms
proof (induction data arbitrary: st)
  case Nil
  then show ?case by simp
next
  case (Cons r data)
  have "length r = 1" using Cons.prems(1) by simp
  then have "dd_get (potential (row_step_f64 r st)) k = 0"
    using Cons.prems(2)
    by (simp add: row_step_f64_potential row_potential_f64_singleton fl64_zero)
  then show ?case using Cons.IH Cons.prems(1) by simp
qed

lemma singleton_rows_raise_f64:
  assumes "\<forall>row\<in>set data. length row = 1"
  shows "agreement_rate_by_category_f64 data =
     (if data = [] then Inr Map.empty else Inl ZeroDivisionError)"
proof (cases data)
  case Nil
  then show ?thesis by (simp add: rate_by_category_f64_char categories_def)
next
  case (Cons r rs)
  have "length r = 1" using assms Cons by simp
  then obtain c where "c \<in> set r" by (cases r) auto
  then have "c \<in> categories data" using Cons by (auto simp: categories_def)
  moreover have "potential_count_f64 data c = 0"
    unfolding potential_count_f64_def accumulate_f64_def
    using assms by (intro fold_row_step_f64_singletons) (simp_all add: dd_get_Nil)
  ultimately show ?thesis using Cons by (auto simp: rate_by_category_f64_char)
qed

lemma result_keys_f64:
  "agreement_rate_by_category_f64 data = Inr m \<Longrightarrow> dom m = {cat. \<exists>row\<in>set data. cat \<in> set row}"
  by (auto simp: rate_by_category_f64_char categories_def split: if_splits)

lemma empty_dataset_f64: "agreement_rate_by_category_f64 ([] :: 'a list list) = Inr Map.empty"
  by (simp add: agreement_rate_by_category_f64_def accumulate_f64_def)

lemma total_disagreement_f64:
  assumes "1 \<le> N" and "9 * int N \<le> 2 ^ 53"
  shows "\<forall>cat\<in>{0, 1, 2}.
           agreement_count_f64 (replicate N [0::int, 1, 2]) cat = 0 \<and>
           potential_count_f64 (replicate N [0::int, 1, 2]) cat = 2 * of_nat N"
    and "agreement_rate_by_category_f64 (replicate N [0::int, 1, 2]) =
           Inr [0 \<mapsto> 0, 1 \<mapsto> 0, 2 \<mapsto> 0]"
proof -
  let ?D = "replicate N [0::int, 1, 2]"
  have ex: "exact_range ?D"
    using assms(2) by (simp add: exact_range_def sum_list_replicate)
  have agr: "agreement_count ?D c = 0" if "c \<in> {0, 1, 2}" for c
    using that
    by (auto simp: agreement_count_sum sum_list_replicate row_agreement_def choose2_def)
  have pot: "potential_count ?D c = 2 * of_nat N" if "c \<in> {0, 1, 2}" for c
    using that
    by (auto simp: potential_count_sum sum_list_replicate row_potential_def choose2_def)
  show "\<forall>cat\<in>{0, 1, 2}. agreement_count_f64 ?D cat = 0 \<and>
          potential_count_f64 ?D cat = 2 * of_nat N"
    using agr pot by (simp add: counts_f64_exact [OF ex])
  have cats: "categories ?D = {0, 1, 2}"
    using assms(1) by (auto simp: categories_replicate)
  have "agreement_rate_by_category_f64 ?D = Inr (\<lambda>c. if c \<in> {0, 1, 2} then Some 0 else None)"
    using assms(1) by (auto simp: rate_by_category_f64_exact [OF ex] cats agr pot fl64_zero)
  moreover have "(\<lambda>c. if c \<in> {0, 1, 2} then Some 0 else None) = [0::int \<mapsto> 0::rat, 1 \<mapsto> 0, 2 \<mapsto> 0]"
    by (auto simp: fun_eq_iff)
  ultimately show "agreement_rate_by_category_f64 ?D = Inr [0 \<mapsto> 0, 1 \<mapsto> 0, 2 \<mapsto> 0]"
    by simp
qed

section \<open>Claims\<close>

subsection \<open>Rows of length 1\<close>

text \<open>
  C1, as the code has it. The program has no handling of a zero denominator: on a dataset
  all of whose rows have length 1 it returns the empty mapping only when there is no row
  at all, and raises \<open>ZeroDivisionError\<close> as soon as there is one.
\<close>

theorem singleton_rows_raise:
  "\<forall>row\<in>set data. length row = 1 \<Longrightarrow>
   agreement_rate_by_category data =
     (if data = [] then Inr Map.empty else Inl ZeroDivisionError)"
proof (cases data)
  case Nil
  then show ?thesis by (simp add: rate_by_category_char categories_def)
next
  case (Cons r rs)
  assume single: "\<forall>row\<in>set data. length row = 1"
  then have "length r = 1" using Cons by simp
  then obtain c where "c \<in> set r" by (cases r) auto
  then have "c \<in> categories data" using Cons by (auto simp: categories_def)
  moreover have "potential_count data c = 0"
    using single by (simp add: potential_count_zero_iff)
  ultimately show ?thesis using Cons by (auto simp: rate_by_category_char)
qed

theorem singleton_rows_raise_witness:
  "length [0::int] = 1 \<and> length [1::int] = 1 \<and>
   agreement_rate_by_category [[0::int], [1]] = Inl ZeroDivisionError"
proof -
  have h: "\<forall>row\<in>set [[0::int], [1]]. length row = 1" by simp
  show ?thesis using singleton_rows_raise [OF h] by simp
qed

text \<open>
  The dataset \<open>[[0]]\<close> has one row, of length 1, and the call raises: the quotient
  for the label \<open>0\<close> is \<open>0.0 / 0.0\<close>.
\<close>

theorem singleton_row_counterexample:
  "length [0::int] = 1 \<and> agreement_rate_by_category [[0::int]] = Inl ZeroDivisionError"
  by (simp add: run_defs)

subsection \<open>When the denominator is not zero\<close>

text \<open>
  C2, as the code has it. A category that occurs in a row of length at least 2 has a
  positive accumulated potential; and when every observed category occurs in such a row,
  every division of the comprehension is defined and the call returns a mapping.
\<close>

theorem potential_positive_with_long_row:
  "(row \<in> set data \<and> cat \<in> set row \<and> 2 \<le> length row \<longrightarrow> 0 < potential_count data cat) \<and>
   ((\<forall>c\<in>categories data. \<exists>row\<in>set data. c \<in> set row \<and> 2 \<le> length row) \<longrightarrow>
      (\<exists>m. agreement_rate_by_category data = Inr m))"
proof -
  have pos: "0 < potential_count data c" if "r \<in> set data" "c \<in> set r" "2 \<le> length r" for r c
  proof -
    have "potential_count data c \<noteq> 0"
      using that by (auto simp: potential_count_zero_iff)
    then show ?thesis using potential_count_nonneg [of data c] by simp
  qed
  have "\<exists>m. agreement_rate_by_category data = Inr m"
    if "\<forall>c\<in>categories data. \<exists>row\<in>set data. c \<in> set row \<and> 2 \<le> length row"
  proof -
    have "\<forall>c\<in>categories data. potential_count data c \<noteq> 0"
      using that pos by fastforce
    then show ?thesis by (simp add: rate_by_category_char)
  qed
  then show ?thesis using pos by blast
qed

theorem potential_positive_with_long_row_witness:
  "0 < potential_count [[0::int, 1]] 0 \<and> (\<exists>m. agreement_rate_by_category [[0::int, 1]] = Inr m)"
proof -
  have h1: "[0::int, 1] \<in> set [[0, 1]] \<and> 0 \<in> set [0::int, 1] \<and> 2 \<le> length [0::int, 1]"
    by simp
  have h2: "\<forall>c\<in>categories [[0::int, 1]]. \<exists>row\<in>set [[0, 1]]. c \<in> set row \<and> 2 \<le> length row"
    by (simp add: categories_def)
  show ?thesis
    using potential_positive_with_long_row [of "[0, 1]" "[[0, 1]]" 0] h1 h2 by blast
qed

text \<open>
  The label \<open>0\<close> occurs in the dataset \<open>[[0]]\<close>, and its accumulated potential is
  \<open>1 * 1 - choose2(2) = 0\<close>.
\<close>

theorem potential_zero_counterexample:
  "(0::int) \<in> set [0] \<and> [0::int] \<in> set [[0]] \<and> potential_count [[0::int]] 0 = 0"
  by (simp add: run_defs)

subsection \<open>The rates\<close>

text \<open>
  C3, as the code has it. On a dataset in the exact range in which every observed
  category has a positive accumulated potential, the call returns the mapping whose keys
  are the observed categories and whose value at a category is the binary64 rounding of
  the rate of the specification's formula.
\<close>

theorem rate_refines_rounded_spec_formula:
  "exact_range data \<Longrightarrow> \<forall>cat\<in>categories data. 0 < potential_count_f64 data cat \<Longrightarrow>
   agreement_rate_by_category_f64 data =
     Inr (\<lambda>cat. if cat \<in> categories data then Some (fl64 (spec_rate data cat)) else None)"
  by (auto simp: rate_by_category_f64_exact counts_f64_exact spec_rate_eq)

theorem rate_refines_rounded_spec_formula_witness:
  "exact_range [[0::int, 0, 1], [1, 2]] \<and>
   categories [[0::int, 0, 1], [1, 2]] = {0, 1, 2} \<and>
   0 < potential_count_f64 [[0::int, 0, 1], [1, 2]] 0 \<and>
   0 < potential_count_f64 [[0::int, 0, 1], [1, 2]] 1 \<and>
   0 < potential_count_f64 [[0::int, 0, 1], [1, 2]] 2 \<and>
   agreement_rate_by_category_f64 [[0::int, 0, 1], [1, 2]] =
     Inr (\<lambda>cat. if cat \<in> categories [[0, 0, 1], [1, 2]]
                 then Some (fl64 (spec_rate [[0, 0, 1], [1, 2]] cat)) else None)"
proof -
  have e: "exact_range [[0::int, 0, 1], [1, 2]]" by (simp add: exact_range_def)
  have c: "categories [[0::int, 0, 1], [1, 2]] = {0, 1, 2}"
    by (auto simp: categories_def)
  have p: "0 < potential_count_f64 [[0::int, 0, 1], [1, 2]] 0"
    "0 < potential_count_f64 [[0::int, 0, 1], [1, 2]] 1"
    "0 < potential_count_f64 [[0::int, 0, 1], [1, 2]] 2"
    by (simp_all add: counts_f64_exact [OF e] run_defs)
  have h: "\<forall>cat\<in>categories [[0::int, 0, 1], [1, 2]]. 0 < potential_count_f64 [[0, 0, 1], [1, 2]] cat"
    using p by (simp add: c)
  show ?thesis using e c p rate_refines_rounded_spec_formula [OF e h] by simp
qed

text \<open>
  On \<open>[[0, 0, 1]]\<close> the formula gives \<open>1/3\<close> for the label \<open>0\<close> and the call returns
  the float \<open>6004799503160661 / 2^54\<close>. On one row of 94906267 labels \<open>0\<close> the formula
  gives 1 and the call returns \<open>1 + 2^-52\<close>: the product \<open>count * len(row)\<close> is odd and
  above \<open>2^53\<close>, and its conversion to a float loses 1.
\<close>

theorem rate_not_exact_formula_counterexample:
  "0 < potential_count_f64 [[0::int, 0, 1]] 0 \<and> 0 < potential_count_f64 [[0::int, 0, 1]] 1 \<and>
   agreement_rate_by_category_f64 [[0::int, 0, 1]] =
     Inr [0 \<mapsto> 6004799503160661 / 18014398509481984, 1 \<mapsto> 0] \<and>
   spec_rate [[0::int, 0, 1]] 0 = 1 / 3 \<and>
   (6004799503160661 / 18014398509481984 :: rat) < 1 / 3 \<and>
   0 < potential_count_f64 [replicate 94906267 (0::int)] 0 \<and>
   agreement_rate_by_category_f64 [replicate 94906267 (0::int)] =
     Inr [0 \<mapsto> 4503599627370497 / 4503599627370496] \<and>
   spec_rate [replicate 94906267 (0::int)] 0 = 1 \<and>
   (1::rat) < 4503599627370497 / 4503599627370496"
proof -
  have "spec_rate [[0::int, 0, 1]] 0 = 1 / 3"
    by (simp add: spec_rate_def spec_choose2_def)
  then show ?thesis
    by (simp add: small_counts small_result unanimous_counts unanimous_result unanimous_spec_rate)
qed

text \<open>
  C4, as the code has it. Whenever the call returns a mapping, no rate in it is negative,
  and on a dataset in the exact range no rate exceeds 1.
\<close>

theorem rate_range_f64:
  "agreement_rate_by_category_f64 data = Inr m \<Longrightarrow> m cat = Some rate \<Longrightarrow>
   0 \<le> rate \<and> (exact_range data \<longrightarrow> rate \<le> 1)"
proof -
  assume ret: "agreement_rate_by_category_f64 data = Inr m" and rate: "m cat = Some rate"
  let ?a = "agreement_count_f64 data cat" and ?p = "potential_count_f64 data cat"
  from ret have m: "m = (\<lambda>c. if c \<in> categories data
       then Some (fl64 (agreement_count_f64 data c / potential_count_f64 data c)) else None)"
    and nz: "\<forall>c\<in>categories data. potential_count_f64 data c \<noteq> 0"
    by (auto simp: rate_by_category_f64_char split: if_splits)
  from m rate have cat: "cat \<in> categories data" and eq: "rate = fl64 (?a / ?p)"
    by (auto split: if_splits)
  have "0 \<le> ?a" "0 \<le> ?p" using counts_f64_Ints_nonneg [of data cat] by simp_all
  then have q: "0 \<le> ?a / ?p" by simp
  then have lower: "0 \<le> rate" unfolding eq by (rule fl64_nonneg)
  have "rate \<le> 1" if ex: "exact_range data"
  proof -
    have "0 < potential_count data cat"
      using nz cat potential_count_nonneg [of data cat] by (auto simp: counts_f64_exact [OF ex])
    then have "agreement_count data cat / potential_count data cat \<le> 1"
      using agreement_le_potential [of data cat] by simp
    then have "?a / ?p \<le> 1" by (simp add: counts_f64_exact [OF ex])
    with q show ?thesis unfolding eq by (rule fl64_le_one)
  qed
  with lower show ?thesis by simp
qed

theorem rate_range_f64_witness:
  "exact_range [[0::int, 0, 1]] \<and>
   agreement_rate_by_category_f64 [[0::int, 0, 1]] =
     Inr [0 \<mapsto> 6004799503160661 / 18014398509481984, 1 \<mapsto> 0] \<and>
   [0 \<mapsto> 6004799503160661 / 18014398509481984, 1 \<mapsto> 0] (0::int) =
     Some (6004799503160661 / 18014398509481984 :: rat) \<and>
   (0::rat) \<le> 6004799503160661 / 18014398509481984 \<and>
   (6004799503160661 / 18014398509481984 :: rat) \<le> 1"
proof -
  have h: "[0 \<mapsto> 6004799503160661 / 18014398509481984, 1 \<mapsto> 0] (0::int) =
     Some (6004799503160661 / 18014398509481984 :: rat)" by simp
  show ?thesis using small_exact small_result h rate_range_f64 [OF small_result h] by simp
qed

text \<open>
  On one row of 94906267 labels \<open>0\<close> the call returns the rate \<open>1 + 2^-52\<close>, printed
  \<open>1.0000000000000002\<close>.
\<close>

theorem rate_above_one_counterexample:
  "agreement_rate_by_category_f64 [replicate 94906267 (0::int)] =
     Inr [0 \<mapsto> 4503599627370497 / 4503599627370496] \<and>
   [0 \<mapsto> 4503599627370497 / 4503599627370496 :: rat] (0::int) =
     Some (4503599627370497 / 4503599627370496) \<and>
   (1::rat) < 4503599627370497 / 4503599627370496"
  by (simp add: unanimous_result)

subsection \<open>Order of the rows and of the labels\<close>

text \<open>
  C5, as the code has it. Reordering the labels within rows never changes the outcome
  (the same keys with the same rates, or the same error). Reordering the rows, with or
  without reordering labels within them, does not change the outcome on a dataset in the
  exact range. The order in which \<open>set(row)\<close> is iterated is a function of the order of
  the row's labels in the model, so the outcome does not depend on it either.
\<close>

theorem permutation_invariance_f64:
  "(map mset data = map mset data' \<longrightarrow>
      agreement_rate_by_category_f64 data = agreement_rate_by_category_f64 data') \<and>
   (exact_range data \<and> mset (map mset data) = mset (map mset data') \<longrightarrow>
      agreement_rate_by_category_f64 data = agreement_rate_by_category_f64 data')"
proof -
  have "agreement_rate_by_category_f64 data = agreement_rate_by_category_f64 data'"
    if ex: "exact_range data" and eq: "mset (map mset data) = mset (map mset data')"
  proof -
    have ex': "exact_range data'" using ex exact_range_mset [OF eq] by simp
    have "agreement_count data = agreement_count data'"
      by (rule ext) (rule agreement_count_mset [OF eq])
    moreover have "potential_count data = potential_count data'"
      by (rule ext) (rule potential_count_mset [OF eq])
    moreover have "categories data = categories data'"
      by (rule categories_mset [OF eq])
    ultimately show ?thesis
      by (simp only: rate_by_category_f64_exact [OF ex] rate_by_category_f64_exact [OF ex'])
  qed
  then show ?thesis using rate_f64_within_rows [of data data'] by blast
qed

theorem permutation_invariance_f64_witness:
  "map mset [[0::int, 1, 1], [2, 0]] = map mset [[1, 0, 1], [0, 2]] \<and>
   agreement_rate_by_category_f64 [[0::int, 1, 1], [2, 0]] =
     agreement_rate_by_category_f64 [[1, 0, 1], [0, 2]] \<and>
   exact_range [[0::int, 1, 1], [2, 0]] \<and>
   mset (map mset [[0::int, 1, 1], [2, 0]]) = mset (map mset [[0, 2], [1, 0, 1]]) \<and>
   agreement_rate_by_category_f64 [[0::int, 1, 1], [2, 0]] =
     agreement_rate_by_category_f64 [[0, 2], [1, 0, 1]]"
proof -
  have h1: "map mset [[0::int, 1, 1], [2, 0]] = map mset [[1, 0, 1], [0, 2]]"
    by (simp add: add_mset_commute)
  have h2: "exact_range [[0::int, 1, 1], [2, 0]]" by (simp add: exact_range_def)
  have h3: "mset (map mset [[0::int, 1, 1], [2, 0]]) = mset (map mset [[0, 2], [1, 0, 1]])"
    by (simp add: add_mset_commute)
  show ?thesis
    using h1 h2 h3
      permutation_invariance_f64 [of "[[0, 1, 1], [2, 0]]" "[[1, 0, 1], [0, 2]]"]
      permutation_invariance_f64 [of "[[0, 1, 1], [2, 0]]" "[[0, 2], [1, 0, 1]]"]
    by blast
qed

text \<open>
  A row of 134217729 labels \<open>0\<close> brings the potential of \<open>0\<close> to \<open>2^53 + 2^26\<close>, where
  floats are 2 apart. Each later row \<open>[0, 1]\<close> adds 1, which is rounded away; put first,
  the two rows add 2, which is kept. The rate of \<open>0\<close> is \<open>1.0\<close> in one order and
  \<open>1 - 2^-52\<close> in the other.
\<close>

theorem row_order_counterexample:
  "mset (map mset [replicate 134217729 (0::int), [0, 1], [0, 1]]) =
     mset (map mset [[0, 1], [0, 1], replicate 134217729 (0::int)]) \<and>
   agreement_rate_by_category_f64 [replicate 134217729 (0::int), [0, 1], [0, 1]] =
     Inr [0 \<mapsto> 1, 1 \<mapsto> 0] \<and>
   agreement_rate_by_category_f64 [[0, 1], [0, 1], replicate 134217729 (0::int)] =
     Inr [0 \<mapsto> 4503599627370495 / 4503599627370496, 1 \<mapsto> 0] \<and>
   (4503599627370495 / 4503599627370496 :: rat) < 1"
  by (simp add: long_first_result long_last_result add_mset_commute)

subsection \<open>The accumulated counts\<close>

text \<open>
  C6, as the code has it. For every dataset and every category the accumulated agreement
  and potential are integers and neither is negative; on a dataset in the exact range the
  agreement is at most the potential whenever the potential is positive.
\<close>

theorem counts_f64_nonneg_integers:
  "agreement_count_f64 data cat \<in> \<int> \<and> 0 \<le> agreement_count_f64 data cat \<and>
   potential_count_f64 data cat \<in> \<int> \<and> 0 \<le> potential_count_f64 data cat \<and>
   (exact_range data \<and> 0 < potential_count_f64 data cat \<longrightarrow>
      agreement_count_f64 data cat \<le> potential_count_f64 data cat)"
  using counts_f64_Ints_nonneg [of data cat]
  by (auto simp: counts_f64_exact agreement_le_potential)

theorem counts_f64_nonneg_integers_witness:
  "exact_range [[0::int, 0, 1]] \<and> 0 < potential_count_f64 [[0::int, 0, 1]] 0 \<and>
   agreement_count_f64 [[0::int, 0, 1]] 0 \<le> potential_count_f64 [[0::int, 0, 1]] 0"
proof -
  have h: "0 < potential_count_f64 [[0::int, 0, 1]] 0" by (simp add: small_counts)
  show ?thesis using small_exact h counts_f64_nonneg_integers [of "[[0, 0, 1]]" 0] by blast
qed

text \<open>
  On one row of 94906267 labels \<open>0\<close> the agreement of \<open>0\<close> is one more than its
  potential, which is positive.
\<close>

theorem agreement_exceeds_potential_counterexample:
  "agreement_count_f64 [replicate 94906267 (0::int)] 0 = 4503599710484511 \<and>
   potential_count_f64 [replicate 94906267 (0::int)] 0 = 4503599710484510 \<and>
   0 < potential_count_f64 [replicate 94906267 (0::int)] 0 \<and>
   potential_count_f64 [replicate 94906267 (0::int)] 0
     < agreement_count_f64 [replicate 94906267 (0::int)] 0"
  by (simp add: unanimous_counts)

subsection \<open>The keys of the result\<close>

text \<open>
  C7. Whenever the call returns a mapping, its keys are exactly the labels that occur in
  some row.
\<close>

theorem result_keys_are_observed_labels:
  "agreement_rate_by_category data = Inr m \<Longrightarrow> dom m = {cat. \<exists>row\<in>set data. cat \<in> set row}"
  by (auto simp: rate_by_category_char categories_def split: if_splits)

theorem result_keys_are_observed_labels_witness:
  "agreement_rate_by_category [[0::int, 0, 1]] = Inr [0 \<mapsto> 1 / 3, 1 \<mapsto> 0] \<and>
   dom [0 \<mapsto> 1 / 3 :: rat, 1 \<mapsto> 0] = {cat. \<exists>row\<in>set [[0::int, 0, 1]]. cat \<in> set row}"
proof -
  have h: "agreement_rate_by_category [[0::int, 0, 1]] = Inr [0 \<mapsto> 1 / 3, 1 \<mapsto> 0]"
    by (simp add: run_defs)
  show ?thesis using h result_keys_are_observed_labels [OF h] by simp
qed

subsection \<open>Fixed datasets\<close>



text \<open>
  C9. On the empty dataset the call returns the empty mapping and raises nothing.
\<close>

theorem empty_dataset_empty_result:
  "agreement_rate_by_category ([] :: 'a list list) = Inr Map.empty"
  by (simp add: agreement_rate_by_category_def accumulate_def)

subsection \<open>Rate 1\<close>

text \<open>
  C10, as the code has it. Whenever the call returns a mapping on a dataset in the exact
  range, the rate of a category of positive accumulated potential is 1 exactly when every
  row in which the category occurs consists of that category only.
\<close>

theorem rate_one_iff_unanimous_f64:
  "exact_range data \<Longrightarrow> agreement_rate_by_category_f64 data = Inr m \<Longrightarrow>
   0 < potential_count_f64 data cat \<Longrightarrow>
   (m cat = Some 1 \<longleftrightarrow> (\<forall>row\<in>set data. cat \<in> set row \<longrightarrow> (\<forall>x\<in>set row. x = cat)))"
proof -
  assume ex: "exact_range data"
    and ret: "agreement_rate_by_category_f64 data = Inr m"
    and pos': "0 < potential_count_f64 data cat"
  let ?a = "agreement_count data cat" and ?p = "potential_count data cat"
  have pos: "0 < ?p" using pos' by (simp add: counts_f64_exact [OF ex])
  from ret have m: "m = (\<lambda>c. if c \<in> categories data
                      then Some (fl64 (agreement_count data c / potential_count data c)) else None)"
    by (auto simp: rate_by_category_f64_exact [OF ex] split: if_splits)
  have cat: "cat \<in> categories data"
    using pos potential_count_absent [of cat data] by auto
  have "(of_int (\<Sum>row\<leftarrow>data. int (length row) * int (length row)) :: rat) \<le> of_int (2 ^ 53)"
    using ex unfolding exact_range_def by (simp only: of_int_le_iff)
  then have ple: "?p \<le> 2 ^ 53" using potential_count_le_range [of data cat] by simp
  have "fl64 (?a / ?p) = 1 \<longleftrightarrow> ?a = ?p"
  proof (cases "?a = ?p")
    case True
    then show ?thesis using pos by (simp add: fl64_one)
  next
    case False
    then have lt: "?a < ?p" using agreement_le_potential [of data cat] by simp
    have "fl64 (?a / ?p) < 1"
      using quotient_below_one [OF agreement_count_Ints potential_count_Ints
          agreement_count_nonneg lt ple]
      by (intro fl64_less_one)
    then show ?thesis using False by simp
  qed
  then have "m cat = Some 1 \<longleftrightarrow> ?a = ?p" using cat by (simp add: m)
  then show ?thesis by (simp only: agreement_eq_potential_iff)
qed

theorem rate_one_iff_unanimous_f64_witness:
  "exact_range [[0::int, 0], [1, 1]] \<and>
   agreement_rate_by_category_f64 [[0::int, 0], [1, 1]] = Inr [0 \<mapsto> 1, 1 \<mapsto> 1] \<and>
   0 < potential_count_f64 [[0::int, 0], [1, 1]] 0 \<and>
   ([0 \<mapsto> 1, 1 \<mapsto> 1] (0::int) = Some (1::rat) \<longleftrightarrow>
      (\<forall>row\<in>set [[0::int, 0], [1, 1]]. 0 \<in> set row \<longrightarrow> (\<forall>x\<in>set row. x = 0)))"
proof -
  have e: "exact_range [[0::int, 0], [1, 1]]" by (simp add: exact_range_def)
  have c: "categories [[0::int, 0], [1, 1]] = {0, 1}" by (auto simp: categories_def)
  have v: "agreement_count_f64 [[0::int, 0], [1, 1]] 0 = 1"
    "potential_count_f64 [[0::int, 0], [1, 1]] 0 = 1"
    "agreement_count_f64 [[0::int, 0], [1, 1]] 1 = 1"
    "potential_count_f64 [[0::int, 0], [1, 1]] 1 = 1"
    by (simp_all add: counts_f64_exact [OF e] run_defs)
  have ne: "(0::int) \<noteq> 1" by simp
  have h1: "agreement_rate_by_category_f64 [[0::int, 0], [1, 1]] = Inr [0 \<mapsto> 1, 1 \<mapsto> 1]"
    by (rule result_two_keys [OF c ne]) (simp_all add: v fl64_one)
  have h2: "0 < potential_count_f64 [[0::int, 0], [1, 1]] 0" by (simp add: v)
  show ?thesis using e h1 h2 rate_one_iff_unanimous_f64 [OF e h1 h2] by simp
qed

text \<open>
  Three datasets. In \<open>[[0, 0], [1]]\<close> the label \<open>0\<close> has potential 1 and its only row is
  all \<open>0\<close>, yet no rate is returned for it: the label \<open>1\<close> has potential 0 and the call
  raises. After a row of 134217729 labels \<open>0\<close> the row \<open>[0, 1]\<close> is mixed, yet the rate
  of \<open>0\<close> is exactly 1, since the 1 it adds to the potential is rounded away. One row of
  94906267 labels \<open>0\<close> is all \<open>0\<close>, yet the rate of \<open>0\<close> is \<open>1 + 2^-52\<close>.
\<close>

theorem rate_one_f64_counterexample:
  "0 < potential_count_f64 [[0::int, 0], [1]] 0 \<and> set [0::int, 0] = {0} \<and> 0 \<notin> set [1::int] \<and>
   agreement_rate_by_category_f64 [[0::int, 0], [1]] = Inl ZeroDivisionError \<and>
   0 < potential_count_f64 [replicate 134217729 (0::int), [0, 1]] 0 \<and>
   0 \<in> set [0::int, 1] \<and> 1 \<in> set [0::int, 1] \<and>
   agreement_rate_by_category_f64 [replicate 134217729 (0::int), [0, 1]] =
     Inr [0 \<mapsto> 1, 1 \<mapsto> 0] \<and>
   0 < potential_count_f64 [replicate 94906267 (0::int)] 0 \<and>
   set (replicate 94906267 (0::int)) = {0} \<and>
   agreement_rate_by_category_f64 [replicate 94906267 (0::int)] =
     Inr [0 \<mapsto> 4503599627370497 / 4503599627370496] \<and>
   (4503599627370497 / 4503599627370496 :: rat) \<noteq> 1"
proof -
  have e: "exact_range [[0::int, 0], [1]]" by (simp add: exact_range_def)
  have p: "potential_count_f64 [[0::int, 0], [1]] 0 = 1" "potential_count_f64 [[0::int, 0], [1]] 1 = 0"
    by (simp_all add: counts_f64_exact [OF e] run_defs)
  have c: "categories [[0::int, 0], [1]] = {0, 1}" by (auto simp: categories_def)
  have "agreement_rate_by_category_f64 [[0::int, 0], [1]] = Inl ZeroDivisionError"
    by (simp add: rate_by_category_f64_char c p)
  then show ?thesis
    by (simp add: p absorbed_counts absorbed_result unanimous_counts unanimous_result)
qed

end
